theory Spec2Isabelle
  imports Main "HOL-Library.Word"
begin

section \<open>The reader/writer log of \<^verbatim>\<open>Reader-Writer Log/rwlog.c\<close>\<close>

text \<open>
  The monitor of \<^verbatim>\<open>rwlog.c\<close> is a process-wide singleton: the static pointer
  \<^verbatim>\<open>monitor\<close>, \<^verbatim>\<open>NULL\<close> until \<^verbatim>\<open>rwlog_create\<close> succeeds and again after
  \<^verbatim>\<open>rwlog_destroy\<close>. It is modelled as a value of type \<open>rwlog_monitor option\<close> that every
  operation takes and returns. What an operation reads from its environment (the calling
  thread's id, the clock, the results of the system calls of \<^verbatim>\<open>rwlog_create\<close>) is an
  argument of its model.

  Integer types. \<^verbatim>\<open>uint64_t\<close> is \<open>64 word\<close>: \<^verbatim>\<open>next_seq++\<close> wraps around. The four
  \<^verbatim>\<open>int\<close> counters are \<open>int\<close>: signed overflow is undefined in C, and a counter
  only overflows with more than \<open>2^31\<close> threads inside the monitor. The \<^verbatim>\<open>size_t\<close>
  fields are \<open>nat\<close>: \<^verbatim>\<open>head\<close> and \<^verbatim>\<open>tail\<close> stay below \<^verbatim>\<open>capacity\<close> and
  \<^verbatim>\<open>count\<close> never exceeds it (lemmas \<open>ring_ok_append_locked\<close> and \<open>ring_sums_bounded\<close>
  below), so the sums \<^verbatim>\<open>head + 1\<close>, \<^verbatim>\<open>tail + 1\<close> and \<^verbatim>\<open>start_pos + i\<close> stay below
  twice the capacity. Where the mapped array holds \<^verbatim>\<open>capacity\<close> entries
  (\<open>mapping_fits\<close>), twice the capacity is below \<^verbatim>\<open>SIZE_MAX\<close> and none of these sums
  wraps.
\<close>

subsection \<open>Data\<close>

type_synonym pthread_t = nat

record timespec =
  tv_sec :: int
  tv_nsec :: int

text \<open>\<^verbatim>\<open>rwlog_entry_t\<close> (declared in \<^verbatim>\<open>rw_log.h\<close>, listed in the README).\<close>

record rwlog_entry =
  seq :: "64 word"
  tid :: pthread_t
  ts :: timespec
  msg :: string

text \<open>
  \<^verbatim>\<open>rwlog_monitor_t\<close>. The mutex, the two condition variables and the shared-memory handle
  carry no data of the log and are left out; \<^verbatim>\<open>entries\<close> is the mapped array of
  \<^verbatim>\<open>capacity\<close> entries.
\<close>

record rwlog_monitor =
  readers_active :: int
  readers_waiting :: int
  writers_waiting :: int
  writer_active :: int
  entries :: "rwlog_entry list"
  capacity :: nat
  head :: nat
  tail :: nat
  count :: nat
  next_seq :: "64 word"

text \<open>
  The environment of \<^verbatim>\<open>rwlog_create\<close>: whether each call that can fail succeeds, what
  the mapped shared memory holds (\<^verbatim>\<open>shm_open\<close> with \<^verbatim>\<open>O_CREAT\<close> reuses an object
  that exists, so the contents are not known to be zero), and \<^verbatim>\<open>sizeof(rwlog_entry_t)\<close>,
  which depends on \<^verbatim>\<open>RWLOG_MSG_MAX\<close> of \<^verbatim>\<open>rw_log.h\<close>.
\<close>

record create_env =
  malloc_ok :: bool
  mutex_init_ok :: bool
  read_cond_init_ok :: bool
  write_cond_init_ok :: bool
  shm_open_ok :: bool
  ftruncate_ok :: bool
  mmap_ok :: bool
  shm_contents :: "nat \<Rightarrow> rwlog_entry"
  sizeof_entry :: nat

subsection \<open>Construction and destruction\<close>

definition buffer_index :: "nat \<Rightarrow> nat \<Rightarrow> nat" where
  "buffer_index pos cap = pos mod cap"

text \<open>
  \<^verbatim>\<open>rwlog_create\<close> sizes the shared memory as \<^verbatim>\<open>capacity * sizeof(rwlog_entry_t)\<close>, a
  product of two \<^verbatim>\<open>size_t\<close> (64 bits) that wraps around unchecked. The array it maps holds
  the entries that fit the size so computed: \<open>cap\<close> entries when the product does not wrap
  (\<open>mapping_fits\<close>), fewer when it does. In the second case the array is shorter than
  \<^verbatim>\<open>capacity\<close> and what the code does past its end is undefined; the properties of the
  stored entries below are stated for the first case.
\<close>

definition mapped_slots :: "nat \<Rightarrow> create_env \<Rightarrow> nat" where
  "mapped_slots cap env = ((cap * sizeof_entry env) mod 2 ^ 64) div sizeof_entry env"

definition mapping_fits :: "nat \<Rightarrow> create_env \<Rightarrow> bool" where
  "mapping_fits cap env = (0 < sizeof_entry env \<and> cap * sizeof_entry env < 2 ^ 64)"

definition rwlog_create :: "rwlog_monitor option \<Rightarrow> nat \<Rightarrow> create_env \<Rightarrow> int \<times> rwlog_monitor option" where
  "rwlog_create g cap env =
     (if g \<noteq> None then (- 1, g)
      else if cap = 0 then (- 1, None)
      else if \<not> malloc_ok env then (- 1, None)
      else if \<not> mutex_init_ok env then (- 1, None)
      else if \<not> read_cond_init_ok env then (- 1, None)
      else if \<not> write_cond_init_ok env then (- 1, None)
      else if \<not> shm_open_ok env then (- 1, None)
      else if \<not> ftruncate_ok env then (- 1, None)
      else if \<not> mmap_ok env then (- 1, None)
      else (0, Some \<lparr>readers_active = 0, readers_waiting = 0, writers_waiting = 0,
                      writer_active = 0,
                      entries = map (shm_contents env) [0..<mapped_slots cap env],
                      capacity = cap, head = 0, tail = 0, count = 0, next_seq = 1\<rparr>))"

definition rwlog_destroy :: "rwlog_monitor option \<Rightarrow> int \<times> rwlog_monitor option" where
  "rwlog_destroy g = (case g of None \<Rightarrow> (0, None) | Some m \<Rightarrow> (0, None))"

subsection \<open>The ring buffer: append and snapshot\<close>

text \<open>
  The critical section of \<^verbatim>\<open>rwlog_append\<close> (between lock and unlock), statement by
  statement. \<open>self\<close> is \<^verbatim>\<open>pthread_self()\<close> and \<open>now\<close> what \<^verbatim>\<open>clock_gettime\<close> stores.
  \<^verbatim>\<open>capacity\<close> is positive and \<^verbatim>\<open>head\<close> below it in every monitor that
  \<^verbatim>\<open>rwlog_create\<close> built (\<open>ring_ok\<close> below), so the slot written exists and the
  remainder is defined.
\<close>

definition append_locked :: "rwlog_monitor \<Rightarrow> rwlog_entry \<Rightarrow> pthread_t \<Rightarrow> timespec \<Rightarrow> rwlog_monitor" where
  "append_locked m e self now =
     (let write_pos = head m;
          m1 = m\<lparr>entries := (entries m)[write_pos := e]\<rparr>;
          m2 = m1\<lparr>entries := (entries m1)[write_pos := (entries m1 ! write_pos)\<lparr>seq := next_seq m1\<rparr>],
                  next_seq := next_seq m1 + 1\<rparr>;
          m3 = m2\<lparr>entries := (entries m2)[write_pos := (entries m2 ! write_pos)\<lparr>tid := self\<rparr>]\<rparr>;
          m4 = m3\<lparr>entries := (entries m3)[write_pos := (entries m3 ! write_pos)\<lparr>ts := now\<rparr>]\<rparr>;
          m5 = m4\<lparr>head := buffer_index (head m4 + 1) (capacity m4)\<rparr>
      in if count m5 < capacity m5 then m5\<lparr>count := count m5 + 1\<rparr>
         else m5\<lparr>tail := buffer_index (tail m5 + 1) (capacity m5)\<rparr>)"

definition rwlog_append :: "rwlog_monitor option \<Rightarrow> rwlog_entry option \<Rightarrow> pthread_t \<Rightarrow> timespec \<Rightarrow> int \<times> rwlog_monitor option" where
  "rwlog_append g e self now =
     (case g of
        None \<Rightarrow> (- 1, None)
      | Some m \<Rightarrow>
          (case e of
             None \<Rightarrow> (- 1, Some m)
           | Some x \<Rightarrow> (0, Some (append_locked m x self now))))"

text \<open>
  The copy loop of \<^verbatim>\<open>rwlog_snapshot\<close>: for \<open>i\<close> from \<open>0\<close> below \<open>entries_to_copy\<close>,
  \<^verbatim>\<open>buf[i] = monitor->entries[buffer_index(start_pos + i, capacity)]\<close>. The caller's
  buffer is a list; C leaves a write past its end undefined, so the theorems about
  snapshots ask for a buffer that holds the entries copied.
\<close>

definition snapshot_copy :: "rwlog_monitor \<Rightarrow> nat \<Rightarrow> nat \<Rightarrow> rwlog_entry list \<Rightarrow> rwlog_entry list" where
  "snapshot_copy m start_pos entries_to_copy buf =
     fold (\<lambda>i b. b[i := entries m ! buffer_index (start_pos + i) (capacity m)])
       [0..<entries_to_copy] buf"

definition rwlog_snapshot :: "rwlog_monitor option \<Rightarrow> rwlog_entry list option \<Rightarrow> nat
    \<Rightarrow> int \<times> rwlog_entry list option \<times> rwlog_monitor option" where
  "rwlog_snapshot g buf max_entries =
     (case g of
        None \<Rightarrow> (- 1, buf, None)
      | Some m \<Rightarrow>
          (case buf of
             None \<Rightarrow> (- 1, None, Some m)
           | Some b \<Rightarrow>
               if max_entries = 0 then (0, Some b, Some m)
               else
                 let entries_to_copy = (if count m < max_entries then count m else max_entries)
                 in (int entries_to_copy,
                     Some (if entries_to_copy > 0 then snapshot_copy m (tail m) entries_to_copy b else b),
                     Some m)))"

subsection \<open>The monitor: begin and end of reading and writing\<close>

text \<open>
  \<^verbatim>\<open>rwlog_begin_read\<close> and \<^verbatim>\<open>rwlog_begin_write\<close> block in \<^verbatim>\<open>pthread_cond_wait\<close>, which
  releases the mutex. A call is therefore a sequence of atomic sections, each run with the
  mutex held: from the call (or from a wake-up) to the next wait or to the return. A
  section ends in \<open>Blocked\<close> (the thread waits) or in \<open>Returned r\<close>.
\<close>

datatype 'a call = Returned 'a | Blocked

text \<open>What an operation sends to the condition variables.\<close>

datatype wakeup = Signal_write_cond | Broadcast_read_cond | Broadcast_write_cond

text \<open>
  One test of the loop of \<^verbatim>\<open>rwlog_begin_read\<close>:
  \<^verbatim>\<open>while (writer_active || writers_waiting > 0) { readers_waiting++; wait; readers_waiting--; }\<close>
  followed by \<^verbatim>\<open>readers_active++\<close>.
\<close>

definition begin_read_loop :: "rwlog_monitor \<Rightarrow> int call \<times> rwlog_monitor" where
  "begin_read_loop m =
     (if writer_active m \<noteq> 0 \<or> writers_waiting m > 0
      then (Blocked, m\<lparr>readers_waiting := readers_waiting m + 1\<rparr>)
      else (Returned 0, m\<lparr>readers_active := readers_active m + 1\<rparr>))"

definition rwlog_begin_read :: "rwlog_monitor option \<Rightarrow> int call \<times> rwlog_monitor option" where
  "rwlog_begin_read g =
     (case g of
        None \<Rightarrow> (Returned (- 1), None)
      | Some m \<Rightarrow> (case begin_read_loop m of (r, m') \<Rightarrow> (r, Some m')))"

text \<open>The section after \<^verbatim>\<open>pthread_cond_wait\<close> returns in \<^verbatim>\<open>rwlog_begin_read\<close>.\<close>

definition begin_read_wakeup :: "rwlog_monitor \<Rightarrow> int call \<times> rwlog_monitor" where
  "begin_read_wakeup m = begin_read_loop (m\<lparr>readers_waiting := readers_waiting m - 1\<rparr>)"

definition rwlog_end_read :: "rwlog_monitor option \<Rightarrow> int \<times> wakeup list \<times> rwlog_monitor option" where
  "rwlog_end_read g =
     (case g of
        None \<Rightarrow> (- 1, [], None)
      | Some m \<Rightarrow>
          (let m1 = m\<lparr>readers_active := readers_active m - 1\<rparr>
           in (0,
               (if readers_active m1 = 0 \<and> writers_waiting m1 > 0 then [Signal_write_cond] else []),
               Some m1)))"

text \<open>
  One test of the loop of \<^verbatim>\<open>rwlog_begin_write\<close>:
  \<^verbatim>\<open>while (readers_active > 0 || writer_active) wait;\<close> followed by
  \<^verbatim>\<open>writers_waiting--; writer_active = 1\<close>.
\<close>

definition begin_write_loop :: "rwlog_monitor \<Rightarrow> int call \<times> rwlog_monitor" where
  "begin_write_loop m =
     (if readers_active m > 0 \<or> writer_active m \<noteq> 0
      then (Blocked, m)
      else (Returned 0, m\<lparr>writers_waiting := writers_waiting m - 1, writer_active := 1\<rparr>))"

definition rwlog_begin_write :: "rwlog_monitor option \<Rightarrow> int call \<times> rwlog_monitor option" where
  "rwlog_begin_write g =
     (case g of
        None \<Rightarrow> (Returned (- 1), None)
      | Some m \<Rightarrow>
          (case begin_write_loop (m\<lparr>writers_waiting := writers_waiting m + 1\<rparr>) of
             (r, m') \<Rightarrow> (r, Some m')))"

definition begin_write_wakeup :: "rwlog_monitor \<Rightarrow> int call \<times> rwlog_monitor" where
  "begin_write_wakeup m = begin_write_loop m"

definition rwlog_end_write :: "rwlog_monitor option \<Rightarrow> int \<times> wakeup list \<times> rwlog_monitor option" where
  "rwlog_end_write g =
     (case g of
        None \<Rightarrow> (- 1, [], None)
      | Some m \<Rightarrow>
          (let m1 = m\<lparr>writer_active := 0\<rparr>
           in (0,
               (if writers_waiting m1 > 0 then [Signal_write_cond] else [Broadcast_read_cond]),
               Some m1)))"

definition rwlog_wake_all :: "rwlog_monitor option \<Rightarrow> wakeup list \<times> rwlog_monitor option" where
  "rwlog_wake_all g =
     (case g of
        None \<Rightarrow> ([], None)
      | Some m \<Rightarrow> ([Broadcast_read_cond, Broadcast_write_cond], Some m))"

subsection \<open>Threads of the harness\<close>

text \<open>
  The threads of \<^verbatim>\<open>rw_main.c\<close>. A reader runs \<^verbatim>\<open>rwlog_begin_read\<close>,
  \<^verbatim>\<open>rwlog_snapshot\<close>, \<^verbatim>\<open>rwlog_end_read\<close> in a loop, a writer \<^verbatim>\<open>rwlog_begin_write\<close>,
  a batch of \<^verbatim>\<open>rwlog_append\<close>, \<^verbatim>\<open>rwlog_end_write\<close>; a call that fails ends the loop, and
  so does the stop flag, read at the top of the loop. The place of a thread in its loop is
  its \<open>pc\<close>; a thread is identified by its index, which is also its \<^verbatim>\<open>pthread_self()\<close>.

  A thread blocked in \<^verbatim>\<open>pthread_cond_wait\<close> may resume at any time: POSIX allows
  spurious wake-ups, so the signals and broadcasts of the monitor enable no step that is
  not possible without them, and every interleaving of the program is a run of this model.
\<close>

datatype pc = Idle | Read_wait | Reading | Write_wait | Writing | Exited

datatype action =
    Call_begin_read
  | Call_snapshot "rwlog_entry list" nat
  | Call_end_read
  | Call_begin_write
  | Call_append rwlog_entry timespec
  | Call_end_write
  | Wake_up
  | See_stop_flag

definition entered :: "int call \<Rightarrow> pc \<Rightarrow> pc \<Rightarrow> pc" where
  "entered r inside waiting =
     (case r of Blocked \<Rightarrow> waiting | Returned v \<Rightarrow> if v = 0 then inside else Exited)"

fun thread_step :: "rwlog_monitor option \<Rightarrow> pthread_t \<Rightarrow> pc \<Rightarrow> action \<Rightarrow> (rwlog_monitor option \<times> pc) option" where
  "thread_step g self Idle Call_begin_read =
     (case rwlog_begin_read g of (r, g') \<Rightarrow> Some (g', entered r Reading Read_wait))"
| "thread_step g self Read_wait Wake_up =
     (case g of
        None \<Rightarrow> None
      | Some m \<Rightarrow> (case begin_read_wakeup m of (r, m') \<Rightarrow> Some (Some m', entered r Reading Read_wait)))"
| "thread_step g self Reading (Call_snapshot buf max_entries) =
     (case rwlog_snapshot g (Some buf) max_entries of (r, b, g') \<Rightarrow> Some (g', Reading))"
| "thread_step g self Reading Call_end_read =
     (case rwlog_end_read g of (r, w, g') \<Rightarrow> Some (g', if r = 0 then Idle else Exited))"
| "thread_step g self Idle Call_begin_write =
     (case rwlog_begin_write g of (r, g') \<Rightarrow> Some (g', entered r Writing Write_wait))"
| "thread_step g self Write_wait Wake_up =
     (case g of
        None \<Rightarrow> None
      | Some m \<Rightarrow> (case begin_write_wakeup m of (r, m') \<Rightarrow> Some (Some m', entered r Writing Write_wait)))"
| "thread_step g self Writing (Call_append e now) =
     (case rwlog_append g (Some e) self now of (r, g') \<Rightarrow> Some (g', Writing))"
| "thread_step g self Writing Call_end_write =
     (case rwlog_end_write g of (r, w, g') \<Rightarrow> Some (g', if r = 0 then Idle else Exited))"
| "thread_step g self Idle See_stop_flag = Some (g, Exited)"
| "thread_step g self p a = None"

record system =
  monitor_ptr :: "rwlog_monitor option"
  pcs :: "pc list"

definition sys_step :: "system \<Rightarrow> nat \<times> action \<Rightarrow> system option" where
  "sys_step s ev =
     (case ev of (t, a) \<Rightarrow>
        if t < length (pcs s)
        then (case thread_step (monitor_ptr s) t (pcs s ! t) a of
                None \<Rightarrow> None
              | Some (g', p') \<Rightarrow> Some \<lparr>monitor_ptr = g', pcs = (pcs s)[t := p']\<rparr>)
        else None)"

fun run :: "system \<Rightarrow> (nat \<times> action) list \<Rightarrow> system option" where
  "run s [] = Some s"
| "run s (ev # evs) = (case sys_step s ev of None \<Rightarrow> None | Some s' \<Rightarrow> run s' evs)"

text \<open>The state in which \<^verbatim>\<open>main\<close> starts its threads: the monitor created, \<open>n\<close> threads.\<close>

definition started :: "rwlog_monitor \<Rightarrow> nat \<Rightarrow> system" where
  "started m0 n = \<lparr>monitor_ptr = Some m0, pcs = replicate n Idle\<rparr>"

subsection \<open>Sequences of appends, live entries\<close>

type_synonym append_args = "rwlog_entry \<times> pthread_t \<times> timespec"

fun appends :: "rwlog_monitor option \<Rightarrow> append_args list \<Rightarrow> rwlog_monitor option" where
  "appends g [] = g"
| "appends g ((e, self, now) # xs) = appends (snd (rwlog_append g (Some e) self now)) xs"

text \<open>
  The stored copies, call by call: what each \<^verbatim>\<open>rwlog_append\<close> of a sequence leaves in the
  slot it wrote (\<^verbatim>\<open>entries[write_pos]\<close>), read when the call returns.
\<close>

fun stored_entries :: "rwlog_monitor option \<Rightarrow> append_args list \<Rightarrow> rwlog_entry list" where
  "stored_entries g [] = []"
| "stored_entries g ((e, self, now) # xs) =
     (case g of
        None \<Rightarrow> []
      | Some m \<Rightarrow>
          (case snd (rwlog_append g (Some e) self now) of
             None \<Rightarrow> []
           | Some m' \<Rightarrow> entries m' ! head m # stored_entries (Some m') xs))"

text \<open>The live entries, oldest first: the \<^verbatim>\<open>count\<close> slots from \<^verbatim>\<open>tail\<close> on, around the ring.\<close>

definition live :: "rwlog_monitor \<Rightarrow> rwlog_entry list" where
  "live m = map (\<lambda>i. entries m ! buffer_index (tail m + i) (capacity m)) [0..<count m]"

text \<open>The shape of the ring that \<^verbatim>\<open>rwlog_create\<close> sets up and \<^verbatim>\<open>rwlog_append\<close> keeps.\<close>

definition ring_ok :: "rwlog_monitor \<Rightarrow> bool" where
  "ring_ok m = (0 < capacity m \<and> length (entries m) = capacity m \<and> head m < capacity m \<and>
      tail m < capacity m \<and> count m \<le> capacity m \<and>
      head m = (tail m + count m) mod capacity m)"

text \<open>Auxiliary functions of the proofs.\<close>

definition stamped :: "rwlog_monitor \<Rightarrow> rwlog_entry \<Rightarrow> pthread_t \<Rightarrow> timespec \<Rightarrow> rwlog_entry" where
  "stamped m e self now = e\<lparr>seq := next_seq m, tid := self, ts := now\<rparr>"

fun appends_locked :: "rwlog_monitor \<Rightarrow> append_args list \<Rightarrow> rwlog_monitor" where
  "appends_locked m [] = m"
| "appends_locked m ((e, self, now) # xs) = appends_locked (append_locked m e self now) xs"

fun stamps :: "64 word \<Rightarrow> append_args list \<Rightarrow> rwlog_entry list" where
  "stamps s [] = []"
| "stamps s ((e, self, now) # xs) = e\<lparr>seq := s, tid := self, ts := now\<rparr> # stamps (s + 1) xs"

text \<open>
  What the four counters of the monitor count, in a system of threads: the invariant of
  \<open>run\<close>.
\<close>

definition sync_inv :: "system \<Rightarrow> bool" where
  "sync_inv s =
     (case monitor_ptr s of
        None \<Rightarrow> False
      | Some m \<Rightarrow>
          readers_active m = int (count_list (pcs s) Reading) \<and>
          readers_waiting m = int (count_list (pcs s) Read_wait) \<and>
          writers_waiting m = int (count_list (pcs s) Write_wait) \<and>
          writer_active m = int (count_list (pcs s) Writing) \<and>
          count_list (pcs s) Writing \<le> 1 \<and>
          (count_list (pcs s) Writing = 0 \<or> count_list (pcs s) Reading = 0))"

text \<open>The part of \<open>ring_ok\<close> that does not depend on the length of the mapped array.\<close>

definition ring_idx :: "rwlog_monitor \<Rightarrow> bool" where
  "ring_idx m = (0 < capacity m \<and> head m < capacity m \<and> tail m < capacity m \<and>
      count m \<le> capacity m \<and> head m = (tail m + count m) mod capacity m)"

text \<open>The ring of a monitor: the monitor with its four counters reset.\<close>

definition ring_of :: "rwlog_monitor \<Rightarrow> rwlog_monitor" where
  "ring_of m = m\<lparr>readers_active := 0, readers_waiting := 0, writers_waiting := 0,
      writer_active := 0\<rparr>"

text \<open>
  The appends of a run of the threads, in the order of the run: each is made by a writer
  between its \<^verbatim>\<open>rwlog_begin_write\<close> and its \<^verbatim>\<open>rwlog_end_write\<close>, and \<^verbatim>\<open>pthread_self()\<close>
  is the writer's index.
\<close>

fun appends_of :: "(nat \<times> action) list \<Rightarrow> append_args list" where
  "appends_of [] = []"
| "appends_of ((t, Call_append e now) # evs) = (e, t, now) # appends_of evs"
| "appends_of (ev # evs) = appends_of evs"

text \<open>
  The stored copies of a run: what each \<^verbatim>\<open>rwlog_append\<close> step of the run leaves in the
  slot it wrote, read from the state after the step.
\<close>

fun stored_by :: "system \<Rightarrow> nat \<times> action \<Rightarrow> system \<Rightarrow> rwlog_entry list" where
  "stored_by s (t, Call_append e now) s' =
     (case monitor_ptr s of
        None \<Rightarrow> []
      | Some m \<Rightarrow> (case monitor_ptr s' of None \<Rightarrow> [] | Some m' \<Rightarrow> [entries m' ! head m]))"
| "stored_by s ev s' = []"

fun stored_in_run :: "system \<Rightarrow> (nat \<times> action) list \<Rightarrow> rwlog_entry list" where
  "stored_in_run s [] = []"
| "stored_in_run s (ev # evs) =
     (case sys_step s ev of
        None \<Rightarrow> []
      | Some s' \<Rightarrow> stored_by s ev s' @ stored_in_run s' evs)"

text \<open>Until the buffer is full the tail has not moved.\<close>

definition packed :: "rwlog_monitor \<Rightarrow> bool" where
  "packed m = (count m = capacity m \<or> tail m = 0)"

subsection \<open>Concrete inputs\<close>

definition blank_entry :: rwlog_entry where
  "blank_entry = \<lparr>seq = 0, tid = 0, ts = \<lparr>tv_sec = 0, tv_nsec = 0\<rparr>, msg = []\<rparr>"

text \<open>An entry as \<^verbatim>\<open>writer_thread\<close> fills it: the message only.\<close>

definition entry_of :: "string \<Rightarrow> rwlog_entry" where
  "entry_of s = blank_entry\<lparr>msg := s\<rparr>"

definition noon :: timespec where
  "noon = \<lparr>tv_sec = 43200, tv_nsec = 0\<rparr>"

definition env_all_ok :: create_env where
  "env_all_ok = \<lparr>malloc_ok = True, mutex_init_ok = True, read_cond_init_ok = True,
      write_cond_init_ok = True, shm_open_ok = True, ftruncate_ok = True, mmap_ok = True,
      shm_contents = (\<lambda>i. blank_entry), sizeof_entry = 288\<rparr>"

text \<open>The monitor that \<^verbatim>\<open>rwlog_create(cap)\<close> builds when every call succeeds.\<close>

definition created :: "nat \<Rightarrow> rwlog_monitor" where
  "created cap = the (snd (rwlog_create None cap env_all_ok))"

section \<open>Properties\<close>

subsection \<open>The ring buffer\<close>

lemma buffer_index_less: "0 < cap \<Longrightarrow> buffer_index pos cap < cap"
  by (simp add: buffer_index_def)

lemma append_locked_eq:
  assumes "head m < length (entries m)"
  shows "append_locked m e self now =
     m\<lparr>entries := (entries m)[head m := stamped m e self now],
       next_seq := next_seq m + 1,
       head := (head m + 1) mod capacity m,
       count := (if count m < capacity m then count m + 1 else count m),
       tail := (if count m < capacity m then tail m else (tail m + 1) mod capacity m)\<rparr>"
  using assms by (simp add: append_locked_def stamped_def buffer_index_def Let_def)

lemma ring_ok_append_locked:
  assumes "ring_ok m"
  shows "ring_ok (append_locked m e self now)"
proof -
  have h: "head m < length (entries m)" using assms by (simp add: ring_ok_def)
  show ?thesis
    using assms
    apply (simp add: append_locked_eq [OF h])
    apply (auto simp: ring_ok_def mod_Suc)
    done
qed

lemma ring_sums_bounded:
  assumes "ring_ok m" and "i < count m"
  shows "head m + 1 \<le> capacity m" and "tail m + 1 \<le> capacity m"
    and "tail m + i < 2 * capacity m"
  using assms by (simp_all add: ring_ok_def)

lemma mod_shift_neq:
  fixes t :: nat
  assumes "i < j" "j < i + c"
  shows "(t + i) mod c \<noteq> (t + j) mod c"
proof
  assume "(t + i) mod c = (t + j) mod c"
  then have "(t + j) mod c = (t + i) mod c" by simp
  then have "c dvd (t + j) - (t + i)"
    using assms(1) by (simp add: mod_eq_dvd_iff_nat)
  then have "c dvd j - i" by simp
  moreover have "0 < j - i" "j - i < c" using assms by auto
  ultimately show False by (auto dest: dvd_imp_le)
qed

lemma mod_succ_shift:
  fixes t :: nat
  shows "((t + 1) mod c + i) mod c = (t + (i + 1)) mod c"
proof -
  have "((t + 1) mod c + i) mod c = ((t + 1) + i) mod c"
    by (rule mod_add_left_eq)
  then show ?thesis by (simp add: ac_simps)
qed

lemma length_live: "length (live m) = count m"
  by (simp add: live_def)

text \<open>
  One append on the live entries: the stamped copy comes last, and when the buffer is full
  the oldest entry goes.
\<close>

lemma live_append_locked:
  assumes "ring_ok m"
  shows "live (append_locked m e self now) =
     (if count m < capacity m then live m else tl (live m)) @ [stamped m e self now]"
proof -
  let ?c = "capacity m" and ?t = "tail m" and ?k = "count m"
  let ?new = "stamped m e self now"
  have h: "head m < length (entries m)" and len: "length (entries m) = ?c"
    and c: "0 < ?c" and hd: "head m = (?t + ?k) mod ?c" and k: "?k \<le> ?c" and t: "?t < ?c"
    using assms by (simp_all add: ring_ok_def)
  show ?thesis
  proof (cases "?k < ?c")
    case True
    have "live (append_locked m e self now) ! i = (live m @ [?new]) ! i" if "i < ?k + 1" for i
    proof (cases "i < ?k")
      case True
      then have "(?t + i) mod ?c \<noteq> (?t + ?k) mod ?c"
        using \<open>?k < ?c\<close> by (intro mod_shift_neq) auto
      then show ?thesis
        using True \<open>?k < ?c\<close> that
        by (simp add: append_locked_eq [OF h] live_def buffer_index_def hd nth_append)
    next
      case False
      then have "i = ?k" using that by simp
      then show ?thesis
        using \<open>?k < ?c\<close> c
        by (simp add: append_locked_eq [OF h] live_def buffer_index_def hd nth_append len)
    qed
    moreover have "length (live (append_locked m e self now)) = ?k + 1"
      using True by (simp add: append_locked_eq [OF h] live_def)
    ultimately have "live (append_locked m e self now) = live m @ [?new]"
      by (intro nth_equalityI) (simp_all add: length_live)
    then show ?thesis using True by simp
  next
    case False
    then have kc: "?k = ?c" using k by simp
    have hdt: "head m = ?t" using hd kc t by simp
    have "live (append_locked m e self now) ! i = (tl (live m) @ [?new]) ! i" if "i < ?c" for i
    proof (cases "i + 1 < ?c")
      case True
      have "(?t + 0) mod ?c \<noteq> (?t + (i + 1)) mod ?c"
        using True by (intro mod_shift_neq) auto
      then have ne: "(?t + (i + 1)) mod ?c \<noteq> ?t" using t by simp
      have "((?t + 1) mod ?c + i) mod ?c = (?t + (i + 1)) mod ?c"
        by (rule mod_succ_shift)
      then show ?thesis
        using True kc that ne
        by (simp add: append_locked_eq [OF h] live_def buffer_index_def hdt nth_append nth_tl)
    next
      case False
      then have i: "i + 1 = ?c" using that by simp
      have "((?t + 1) mod ?c + i) mod ?c = (?t + (i + 1)) mod ?c"
        by (rule mod_succ_shift)
      also have "\<dots> = ?t" using i t by simp
      finally show ?thesis
        using kc that i t
        by (simp add: append_locked_eq [OF h] live_def buffer_index_def hdt nth_append len)
    qed
    moreover have "length (live (append_locked m e self now)) = ?c"
      using kc by (simp add: append_locked_eq [OF h] live_def)
    moreover have "length (tl (live m) @ [?new]) = ?c"
      using kc c by (simp add: length_live)
    ultimately have "live (append_locked m e self now) = tl (live m) @ [?new]"
      by (intro nth_equalityI) simp_all
    then show ?thesis using False by simp
  qed
qed

lemma appends_Some: "appends (Some m) xs = Some (appends_locked m xs)"
  by (induction xs arbitrary: m) (auto simp: rwlog_append_def)

lemma appends_None: "appends None xs = None"
  by (induction xs) (auto simp: rwlog_append_def)

lemma length_stamps: "length (stamps s xs) = length xs"
  by (induction xs arbitrary: s) auto

lemma seq_stamps: "i < length xs \<Longrightarrow> seq (stamps s xs ! i) = s + of_nat i"
proof (induction xs arbitrary: s i)
  case Nil
  then show ?case by simp
next
  case (Cons x xs)
  obtain e self now where x: "x = (e, self, now)" by (cases x)
  show ?case
  proof (cases i)
    case 0
    then show ?thesis by (simp add: x)
  next
    case (Suc j)
    then show ?thesis using Cons by (simp add: x)
  qed
qed

lemma stored_at_head:
  "head m < length (entries m) \<Longrightarrow>
     entries (append_locked m e self now) ! head m = stamped m e self now"
  by (simp add: append_locked_eq)

lemma next_seq_append_locked: "next_seq (append_locked m e self now) = next_seq m + 1"
  by (simp add: append_locked_def Let_def)

lemma capacity_append_locked: "capacity (append_locked m e self now) = capacity m"
  by (simp add: append_locked_def Let_def)

lemma ring_ok_appends_locked: "ring_ok m \<Longrightarrow> ring_ok (appends_locked m xs)"
  by (induction xs arbitrary: m) (auto simp: ring_ok_append_locked)

lemma capacity_appends_locked: "capacity (appends_locked m xs) = capacity m"
  by (induction xs arbitrary: m) (auto simp: capacity_append_locked)

lemma next_seq_appends_locked: "next_seq (appends_locked m xs) = next_seq m + of_nat (length xs)"
  by (induction xs arbitrary: m) (auto simp: next_seq_append_locked)

lemma stored_entries_stamps:
  "ring_ok m \<Longrightarrow> stored_entries (Some m) xs = stamps (next_seq m) xs"
proof (induction xs arbitrary: m)
  case Nil
  then show ?case by simp
next
  case (Cons x xs)
  obtain e self now where x: "x = (e, self, now)" by (cases x)
  have h: "head m < length (entries m)" using Cons.prems by (simp add: ring_ok_def)
  have "stored_entries (Some (append_locked m e self now)) xs =
          stamps (next_seq m + 1) xs"
    using Cons.IH [OF ring_ok_append_locked [OF Cons.prems]]
    by (simp add: next_seq_append_locked)
  then show ?case
    by (simp add: x rwlog_append_def stored_at_head [OF h] stamped_def)
qed

text \<open>
  After any sequence of appends the live entries are the last \<open>capacity\<close> of those that
  were live before followed by the stamped copies, in the order of the calls.
\<close>

lemma live_appends_locked:
  "ring_ok m \<Longrightarrow>
     live (appends_locked m xs) =
       drop (count m + length xs - capacity m) (live m @ stamps (next_seq m) xs)"
proof (induction xs arbitrary: m)
  case Nil
  then show ?case by (simp add: ring_ok_def length_live)
next
  case (Cons x xs)
  obtain e self now where x: "x = (e, self, now)" by (cases x)
  let ?m1 = "append_locked m e self now"
  let ?new = "stamped m e self now"
  have ok1: "ring_ok ?m1" by (rule ring_ok_append_locked [OF Cons.prems])
  have k: "count m \<le> capacity m" and c: "0 < capacity m"
    using Cons.prems by (simp_all add: ring_ok_def)
  have IH: "live (appends_locked ?m1 xs) =
      drop (count ?m1 + length xs - capacity m) (live ?m1 @ stamps (next_seq m + 1) xs)"
    using Cons.IH [OF ok1] by (simp add: next_seq_append_locked capacity_append_locked)
  have st: "stamps (next_seq m) (x # xs) = ?new # stamps (next_seq m + 1) xs"
    by (simp add: x stamped_def)
  have ap: "appends_locked m (x # xs) = appends_locked ?m1 xs"
    by (simp add: x)
  show ?case
  proof (cases "count m < capacity m")
    case True
    then have "live ?m1 = live m @ [?new]" and "count ?m1 = count m + 1"
      using live_append_locked [OF Cons.prems, of e self now] length_live [of ?m1]
      by (simp_all add: length_live)
    then show ?thesis using IH by (simp add: ap st)
  next
    case False
    then have kc: "count m = capacity m" using k by simp
    then have l1: "live ?m1 = tl (live m) @ [?new]" and k1: "count ?m1 = capacity m"
      using live_append_locked [OF Cons.prems, of e self now] length_live [of ?m1] c
      by (simp_all add: length_live)
    have ne: "live m \<noteq> []" using kc c length_live [of m] by auto
    have "drop (Suc (length xs)) (live m @ ?new # stamps (next_seq m + 1) xs) =
          drop (length xs) (tl (live m) @ ?new # stamps (next_seq m + 1) xs)"
      using ne by (cases "live m") simp_all
    then show ?thesis using IH by (simp add: ap st l1 k1 kc)
  qed
qed

lemma rwlog_create_ok:
  assumes "rwlog_create g cap env = (0, Some m0)"
  shows "g = None" and "0 < cap"
    and "m0 = \<lparr>readers_active = 0, readers_waiting = 0, writers_waiting = 0,
                writer_active = 0,
                entries = map (shm_contents env) [0..<mapped_slots cap env],
                capacity = cap, head = 0, tail = 0, count = 0, next_seq = 1\<rparr>"
  using assms by (simp_all add: rwlog_create_def split: if_splits)

lemma mapped_slots_fits: "mapping_fits cap env \<Longrightarrow> mapped_slots cap env = cap"
  by (simp add: mapping_fits_def mapped_slots_def)

lemma rwlog_create_idx:
  assumes "rwlog_create g cap env = (0, Some m0)"
  shows "ring_idx m0" and "capacity m0 = cap" and "count m0 = 0" and "head m0 = 0"
    and "tail m0 = 0" and "next_seq m0 = 1" and "live m0 = []" and "ring_of m0 = m0"
  using rwlog_create_ok [OF assms] by (simp_all add: ring_idx_def live_def ring_of_def)

lemma rwlog_create_ring_ok:
  assumes "rwlog_create g cap env = (0, Some m0)" and "mapping_fits cap env"
  shows "ring_ok m0" and "capacity m0 = cap" and "count m0 = 0" and "head m0 = 0"
    and "tail m0 = 0" and "next_seq m0 = 1" and "live m0 = []"
  using rwlog_create_ok [OF assms(1)] mapped_slots_fits [OF assms(2)]
  by (simp_all add: ring_ok_def live_def)

lemma mapping_fits_demo: "cap \<le> 1000 \<Longrightarrow> mapping_fits cap env_all_ok"
  by (simp add: mapping_fits_def env_all_ok_def)

lemma created_eq:
  "0 < cap \<Longrightarrow> cap \<le> 1000 \<Longrightarrow> created cap =
     \<lparr>readers_active = 0, readers_waiting = 0, writers_waiting = 0,
       writer_active = 0, entries = replicate cap blank_entry,
       capacity = cap, head = 0, tail = 0, count = 0, next_seq = 1\<rparr>"
proof -
  assume c: "0 < cap" "cap \<le> 1000"
  have "mapped_slots cap env_all_ok = cap"
    by (rule mapped_slots_fits [OF mapping_fits_demo [OF c(2)]])
  moreover have "map (\<lambda>i. blank_entry) [0..<cap] = replicate cap blank_entry"
    by (simp add: map_replicate_const)
  moreover have "shm_contents env_all_ok = (\<lambda>i. blank_entry)"
    by (simp add: env_all_ok_def)
  ultimately show ?thesis
    using c by (simp add: created_def rwlog_create_def) (simp add: env_all_ok_def)
qed

lemma rwlog_create_created:
  "0 < cap \<Longrightarrow> rwlog_create None cap env_all_ok = (0, Some (created cap))"
  by (simp add: created_def rwlog_create_def env_all_ok_def)

lemmas demo_simps = rwlog_append_def append_locked_def Let_def buffer_index_def
  entry_of_def blank_entry_def noon_def

subsection \<open>Indices after an append\<close>

lemma count_append_locked:
  "count (append_locked m e self now) = (if count m < capacity m then count m + 1 else count m)"
  by (simp add: append_locked_def Let_def)

lemma tail_append_locked:
  "tail (append_locked m e self now) =
     (if count m < capacity m then tail m else (tail m + 1) mod capacity m)"
  by (simp add: append_locked_def Let_def buffer_index_def)

lemma head_append_locked:
  "head (append_locked m e self now) = (head m + 1) mod capacity m"
  by (simp add: append_locked_def Let_def buffer_index_def)

subsection \<open>The count formula\<close>

lemma ring_idx_append_locked: "ring_idx m \<Longrightarrow> ring_idx (append_locked m e self now)"
  by (auto simp: ring_idx_def count_append_locked tail_append_locked head_append_locked
      capacity_append_locked mod_Suc)

lemma ring_idx_appends_locked: "ring_idx m \<Longrightarrow> ring_idx (appends_locked m xs)"
  by (induction xs arbitrary: m) (auto simp: ring_idx_append_locked)

lemma packed_append_locked: "ring_idx m \<Longrightarrow> packed m \<Longrightarrow> packed (append_locked m e self now)"
  by (auto simp: packed_def ring_idx_def count_append_locked tail_append_locked
      capacity_append_locked)

lemma packed_appends_locked: "ring_idx m \<Longrightarrow> packed m \<Longrightarrow> packed (appends_locked m xs)"
  by (induction xs arbitrary: m) (auto simp: packed_append_locked ring_idx_append_locked)

lemma reachable_ring_idx:
  assumes "rwlog_create None cap env = (0, Some m0)" and "appends (Some m0) xs = Some m"
  shows "m = appends_locked m0 xs" and "ring_idx m" and "capacity m = cap"
proof -
  show m: "m = appends_locked m0 xs" using assms(2) by (simp add: appends_Some)
  show "ring_idx m"
    unfolding m by (rule ring_idx_appends_locked [OF rwlog_create_idx(1) [OF assms(1)]])
  show "capacity m = cap"
    unfolding m by (simp add: capacity_appends_locked rwlog_create_idx(2) [OF assms(1)])
qed

text \<open>
  C8 (amended). In every store reached by appends from a fresh one, \<^verbatim>\<open>count\<close> and
  \<^verbatim>\<open>(head - tail) mod capacity\<close> agree modulo \<^verbatim>\<open>capacity\<close>. While the buffer is not
  full, \<^verbatim>\<open>tail\<close> is 0, \<^verbatim>\<open>head\<close> is \<^verbatim>\<open>count\<close> and \<^verbatim>\<open>count = (head - tail) mod capacity\<close>.
  When it is full, \<^verbatim>\<open>head = tail\<close> and \<^verbatim>\<open>(head - tail) mod capacity\<close> is 0.
\<close>

theorem ring_count_formula:
  assumes "rwlog_create None cap env = (0, Some m0)" and "appends (Some m0) xs = Some m"
  shows "count m \<le> cap \<and>
     int (count m) mod int cap = (int (head m) - int (tail m)) mod int cap \<and>
     (count m < cap \<longrightarrow>
        tail m = 0 \<and> head m = count m \<and>
        int (count m) = (int (head m) - int (tail m)) mod int cap) \<and>
     (count m = cap \<longrightarrow>
        head m = tail m \<and> (int (head m) - int (tail m)) mod int cap = 0)"
proof -
  note r = reachable_ring_idx [OF assms]
  note c = rwlog_create_idx [OF assms(1)]
  have "packed m0" using c by (simp add: packed_def)
  then have p: "packed m"
    unfolding r(1) by (rule packed_appends_locked [OF c(1)])
  have k: "count m \<le> cap" and hd: "head m = (tail m + count m) mod cap" and t: "tail m < cap"
    using r(2,3) by (auto simp: ring_idx_def)
  have full: "head m = tail m" if "count m = cap"
    using that hd t by simp
  have part: "tail m = 0 \<and> head m = count m" if "count m < cap"
    using that p hd r(3) by (auto simp: packed_def)
  show ?thesis
  proof (cases "count m < cap")
    case True
    then show ?thesis using part k by simp
  next
    case False
    then have "count m = cap" using k by simp
    then show ?thesis using full by simp
  qed
qed

text \<open>Capacity 3 after two appends.\<close>

theorem ring_count_formula_witness:
  "rwlog_create None 3 env_all_ok = (0, Some (created 3)) \<and>
   appends (Some (created 3)) [(entry_of ''A'', 1, noon), (entry_of ''B'', 1, noon)]
     = Some (appends_locked (created 3) [(entry_of ''A'', 1, noon), (entry_of ''B'', 1, noon)]) \<and>
   count (appends_locked (created 3) [(entry_of ''A'', 1, noon), (entry_of ''B'', 1, noon)]) = 2 \<and>
   tail (appends_locked (created 3) [(entry_of ''A'', 1, noon), (entry_of ''B'', 1, noon)]) = 0 \<and>
   head (appends_locked (created 3) [(entry_of ''A'', 1, noon), (entry_of ''B'', 1, noon)]) = 2"
proof -
  let ?xs = "[(entry_of ''A'', 1, noon), (entry_of ''B'', 1, noon)]"
  let ?m = "appends_locked (created 3) ?xs"
  have c: "rwlog_create None 3 env_all_ok = (0, Some (created 3))"
    by (simp add: rwlog_create_created)
  have a: "appends (Some (created 3)) ?xs = Some ?m"
    by (rule appends_Some)
  have k: "count ?m = 2"
    by (simp add: created_eq append_locked_def Let_def buffer_index_def)
  have "count ?m < 3 \<longrightarrow> tail ?m = 0 \<and> head ?m = count ?m"
    using ring_count_formula [OF c a] by blast
  then have "tail ?m = 0" and "head ?m = 2"
    using k by simp_all
  then show ?thesis using c a k by blast
qed

text \<open>
  C8 as stated fails in the full state: with capacity 3 and three appends \<^verbatim>\<open>count\<close> is 3
  and \<^verbatim>\<open>head = tail = 0\<close>.
\<close>

theorem full_ring_count_counterexample:
  "0 < count (the (appends (Some (created 3))
          [(entry_of ''A'', 1, noon), (entry_of ''B'', 1, noon), (entry_of ''C'', 2, noon)])) \<and>
   int (count (the (appends (Some (created 3))
          [(entry_of ''A'', 1, noon), (entry_of ''B'', 1, noon), (entry_of ''C'', 2, noon)])))
   \<noteq> (int (head (the (appends (Some (created 3))
          [(entry_of ''A'', 1, noon), (entry_of ''B'', 1, noon), (entry_of ''C'', 2, noon)])))
      - int (tail (the (appends (Some (created 3))
          [(entry_of ''A'', 1, noon), (entry_of ''B'', 1, noon), (entry_of ''C'', 2, noon)]))))
     mod int (capacity (the (appends (Some (created 3))
          [(entry_of ''A'', 1, noon), (entry_of ''B'', 1, noon), (entry_of ''C'', 2, noon)])))"
  by (simp add: created_eq demo_simps)

subsection \<open>Calls without a monitor, null arguments\<close>

text \<open>
  C9. With no monitor (before \<^verbatim>\<open>rwlog_create\<close>, or after \<^verbatim>\<open>rwlog_destroy\<close>, which leaves
  none) each of \<^verbatim>\<open>rwlog_begin_read\<close>, \<^verbatim>\<open>rwlog_end_read\<close>, \<^verbatim>\<open>rwlog_begin_write\<close>,
  \<^verbatim>\<open>rwlog_end_write\<close>, \<^verbatim>\<open>rwlog_append\<close> and \<^verbatim>\<open>rwlog_snapshot\<close> returns \<open>-1\<close> at once,
  without blocking, and changes nothing: there is still no monitor and the caller's buffer
  is as it was. With a monitor, \<^verbatim>\<open>rwlog_append\<close> of a null entry and \<^verbatim>\<open>rwlog_snapshot\<close>
  into a null buffer return \<open>-1\<close> and leave the monitor as it was.
\<close>

theorem misuse_returns_failure:
  "rwlog_begin_read None = (Returned (- 1), None) \<and>
   rwlog_end_read None = (- 1, [], None) \<and>
   rwlog_begin_write None = (Returned (- 1), None) \<and>
   rwlog_end_write None = (- 1, [], None) \<and>
   rwlog_append None e self now = (- 1, None) \<and>
   rwlog_snapshot None buf max_entries = (- 1, buf, None) \<and>
   snd (rwlog_destroy g) = None \<and>
   rwlog_begin_read (snd (rwlog_destroy g)) = (Returned (- 1), None) \<and>
   rwlog_end_read (snd (rwlog_destroy g)) = (- 1, [], None) \<and>
   rwlog_begin_write (snd (rwlog_destroy g)) = (Returned (- 1), None) \<and>
   rwlog_end_write (snd (rwlog_destroy g)) = (- 1, [], None) \<and>
   rwlog_append (snd (rwlog_destroy g)) e self now = (- 1, None) \<and>
   rwlog_snapshot (snd (rwlog_destroy g)) buf max_entries = (- 1, buf, None) \<and>
   rwlog_append (Some m) None self now = (- 1, Some m) \<and>
   rwlog_snapshot (Some m) None max_entries = (- 1, None, Some m)"
proof -
  have d: "snd (rwlog_destroy g) = None"
    by (simp add: rwlog_destroy_def split: option.split)
  show ?thesis
    unfolding d
    by (simp add: rwlog_begin_read_def rwlog_end_read_def rwlog_begin_write_def
        rwlog_end_write_def rwlog_append_def rwlog_snapshot_def)
qed

text \<open>The calls on no monitor, on a destroyed monitor, and with null arguments.\<close>

theorem misuse_returns_failure_witness:
  "rwlog_begin_read None = (Returned (- 1), None) \<and>
   rwlog_end_read None = (- 1, [], None) \<and>
   rwlog_begin_write None = (Returned (- 1), None) \<and>
   rwlog_end_write None = (- 1, [], None) \<and>
   rwlog_append None (Some (entry_of ''A'')) 7 noon = (- 1, None) \<and>
   rwlog_snapshot None (Some [blank_entry]) 1 = (- 1, Some [blank_entry], None) \<and>
   rwlog_begin_read (snd (rwlog_destroy (Some (created 3)))) = (Returned (- 1), None) \<and>
   rwlog_append (snd (rwlog_destroy (Some (created 3)))) (Some (entry_of ''A'')) 7 noon = (- 1, None) \<and>
   rwlog_append (Some (created 3)) None 7 noon = (- 1, Some (created 3)) \<and>
   rwlog_snapshot (Some (created 3)) None 1 = (- 1, None, Some (created 3))"
  using misuse_returns_failure [of "Some (entry_of ''A'')" 7 noon "Some [blank_entry]" 1
      "Some (created 3)" "created 3"]
  by blast

subsection \<open>Guards of create\<close>

lemma rwlog_create_fails:
  "fst (rwlog_create g cap env) \<noteq> 0 \<Longrightarrow> rwlog_create g cap env = (- 1, g)"
  by (cases g) (simp_all add: rwlog_create_def split: if_splits)

text \<open>
  C10. \<^verbatim>\<open>rwlog_create\<close> on an existing monitor returns \<open>-1\<close> and leaves it as it is;
  \<^verbatim>\<open>rwlog_create(0)\<close> returns \<open>-1\<close>; a successful call started from no monitor with a
  positive capacity, which is the capacity of the monitor it builds; a call that does not
  return 0 returns \<open>-1\<close> and changes nothing.
\<close>

theorem create_guards:
  "rwlog_create (Some m) cap env = (- 1, Some m) \<and>
   rwlog_create g 0 env = (- 1, g) \<and>
   (rwlog_create g cap env = (0, Some m') \<longrightarrow> g = None \<and> 0 < cap \<and> capacity m' = cap) \<and>
   (fst (rwlog_create g cap env) = 0 \<or>
      fst (rwlog_create g cap env) = - 1 \<and> snd (rwlog_create g cap env) = g)"
proof -
  have a: "rwlog_create (Some m) cap env = (- 1, Some m)"
    by (simp add: rwlog_create_def)
  have b: "rwlog_create g 0 env = (- 1, g)"
    by (cases g) (simp_all add: rwlog_create_def)
  have c: "rwlog_create g cap env = (0, Some m') \<longrightarrow> g = None \<and> 0 < cap \<and> capacity m' = cap"
    using rwlog_create_ok(1,2) [of g cap env m'] rwlog_create_idx(2) [of g cap env m']
    by blast
  have d: "fst (rwlog_create g cap env) = 0 \<or>
      fst (rwlog_create g cap env) = - 1 \<and> snd (rwlog_create g cap env) = g"
    using rwlog_create_fails [of g cap env] by auto
  show ?thesis using a b c d by (intro conjI)
qed

text \<open>A second create, a create of capacity 0, and a successful create of capacity 3.\<close>

theorem create_guards_witness:
  "rwlog_create (Some (created 3)) 5 env_all_ok = (- 1, Some (created 3)) \<and>
   rwlog_create None 0 env_all_ok = (- 1, None) \<and>
   rwlog_create None 3 env_all_ok = (0, Some (created 3)) \<and>
   (0::nat) < 3 \<and> capacity (created 3) = 3"
proof -
  have c: "rwlog_create None 3 env_all_ok = (0, Some (created 3))"
    by (simp add: rwlog_create_created)
  have "rwlog_create (Some (created 3)) 5 env_all_ok = (- 1, Some (created 3))"
    using create_guards [of "created 3" 5 env_all_ok] by (rule conjunct1)
  moreover have "rwlog_create None 0 env_all_ok = (- 1, None)"
    using create_guards [of "created 3" 5 env_all_ok None] by simp
  moreover have "(0::nat) < 3 \<and> capacity (created 3) = 3"
    using c create_guards [of "created 3" 3 env_all_ok None "created 3"] by simp
  ultimately show ?thesis using c by (intro conjI) simp_all
qed

subsection \<open>The monitor's counters and the threads\<close>

lemma count_list_update:
  "t < length xs \<Longrightarrow>
     count_list (xs[t := y]) z =
       (if xs ! t = z then (if y = z then count_list xs z else count_list xs z - 1)
        else (if y = z then Suc (count_list xs z) else count_list xs z))"
proof (induction xs arbitrary: t)
  case Nil
  then show ?case by simp
next
  case (Cons x xs)
  show ?case
  proof (cases t)
    case 0
    then show ?thesis by simp
  next
    case (Suc k)
    then have k: "k < length xs" using Cons.prems by simp
    have "xs ! k = z \<Longrightarrow> 0 < count_list xs z"
      using k by (metis count_list_0_iff gr0I nth_mem)
    then show ?thesis
      using Cons.IH [OF k] Suc by auto
  qed
qed

lemma count_list_nth_pos: "t < length xs \<Longrightarrow> 0 < count_list xs (xs ! t)"
  by (metis count_list_0_iff gr0I nth_mem)

lemma count_list_replicate: "count_list (replicate n x) y = (if x = y then n else 0)"
  by (induction n) auto

lemma sync_counters_append_locked:
  "readers_active (append_locked m e self now) = readers_active m"
  "readers_waiting (append_locked m e self now) = readers_waiting m"
  "writers_waiting (append_locked m e self now) = writers_waiting m"
  "writer_active (append_locked m e self now) = writer_active m"
  by (simp_all add: append_locked_def Let_def)

lemmas sync_defs = rwlog_begin_read_def begin_read_loop_def begin_read_wakeup_def
  rwlog_end_read_def rwlog_begin_write_def begin_write_loop_def begin_write_wakeup_def
  rwlog_end_write_def rwlog_append_def rwlog_snapshot_def entered_def Let_def

lemma sys_stepD:
  assumes "sys_step s (t, a) = Some s'"
  obtains g' p' where "t < length (pcs s)"
    and "thread_step (monitor_ptr s) t (pcs s ! t) a = Some (g', p')"
    and "s' = \<lparr>monitor_ptr = g', pcs = (pcs s)[t := p']\<rparr>"
  using assms by (auto simp: sys_step_def split: if_splits option.splits)

text \<open>Every step of a thread keeps the counters equal to the numbers of threads they count.\<close>

lemma sync_inv_step:
  assumes inv: "sync_inv s" and step: "sys_step s (t, a) = Some s'"
  shows "sync_inv s'"
proof -
  obtain m where m: "monitor_ptr s = Some m"
    using inv by (auto simp: sync_inv_def split: option.splits)
  from step obtain g' p' where t: "t < length (pcs s)"
    and ts: "thread_step (Some m) t (pcs s ! t) a = Some (g', p')"
    and s': "s' = \<lparr>monitor_ptr = g', pcs = (pcs s)[t := p']\<rparr>"
    unfolding m [symmetric] by (rule sys_stepD)
  note cu = count_list_update [OF t]
  note pos = count_list_nth_pos [OF t]
  have I: "readers_active m = int (count_list (pcs s) Reading)"
    "readers_waiting m = int (count_list (pcs s) Read_wait)"
    "writers_waiting m = int (count_list (pcs s) Write_wait)"
    "writer_active m = int (count_list (pcs s) Writing)"
    "int (count_list (pcs s) Writing) \<le> 1"
    "int (count_list (pcs s) Writing) = 0 \<or> int (count_list (pcs s) Reading) = 0"
    using inv by (auto simp: sync_inv_def m)
  have goal: "sync_inv s' \<longleftrightarrow>
    (case g' of None \<Rightarrow> False | Some m' \<Rightarrow>
      readers_active m' = int (count_list ((pcs s)[t := p']) Reading) \<and>
      readers_waiting m' = int (count_list ((pcs s)[t := p']) Read_wait) \<and>
      writers_waiting m' = int (count_list ((pcs s)[t := p']) Write_wait) \<and>
      writer_active m' = int (count_list ((pcs s)[t := p']) Writing) \<and>
      int (count_list ((pcs s)[t := p']) Writing) \<le> 1 \<and>
      (int (count_list ((pcs s)[t := p']) Writing) = 0 \<or>
       int (count_list ((pcs s)[t := p']) Reading) = 0))"
    by (simp add: sync_inv_def s' split: option.splits)
  show ?thesis
    unfolding goal
    using ts I pos
    by (cases "pcs s ! t"; cases a)
      (auto simp: sync_defs cu sync_counters_append_locked split: if_splits)
qed


lemma sync_inv_run: "sync_inv s \<Longrightarrow> run s evs = Some s' \<Longrightarrow> sync_inv s'"
proof (induction evs arbitrary: s)
  case Nil
  then show ?case by simp
next
  case (Cons ev evs)
  obtain t a where ev: "ev = (t, a)" by (cases ev)
  from Cons.prems(2) obtain s1 where s1: "sys_step s (t, a) = Some s1" and r: "run s1 evs = Some s'"
    by (auto simp: ev split: option.splits)
  show ?case
    by (rule Cons.IH [OF sync_inv_step [OF Cons.prems(1) s1] r])
qed

lemma sync_inv_started:
  assumes "rwlog_create None cap env = (0, Some m0)"
  shows "sync_inv (started m0 n)"
  using rwlog_create_ok(3) [OF assms]
  by (simp add: sync_inv_def started_def count_list_replicate)

lemma sync_inv_reachable:
  assumes "rwlog_create None cap env = (0, Some m0)" and "run (started m0 n) evs = Some s"
  shows "sync_inv s"
  by (rule sync_inv_run [OF sync_inv_started [OF assms(1)] assms(2)])

lemma replicate_three: "replicate 3 x = [x, x, x]"
  by (simp add: numeral_3_eq_3)

lemmas run_simps = sys_step_def started_def replicate_three created_eq sync_defs

text \<open>
  C1. In every state that the threads reach from the created monitor, by any interleaving
  of the atomic sections of \<^verbatim>\<open>rwlog_begin_read\<close>, \<^verbatim>\<open>rwlog_end_read\<close>,
  \<^verbatim>\<open>rwlog_begin_write\<close>, \<^verbatim>\<open>rwlog_end_write\<close> (and of appends by writers and snapshots by
  readers): \<^verbatim>\<open>writer_active\<close> non-zero implies \<^verbatim>\<open>readers_active = 0\<close>, and
  \<^verbatim>\<open>readers_active > 0\<close> implies \<^verbatim>\<open>writer_active = 0\<close>. \<^verbatim>\<open>readers_active\<close> is the number
  of threads between their begin and end of reading, \<^verbatim>\<open>writer_active\<close> the number of
  threads between their begin and end of writing; that number is at most one, and no thread
  is writing while another is reading.
\<close>

theorem mutual_exclusion:
  assumes "rwlog_create None cap env = (0, Some m0)" and "run (started m0 n) evs = Some s"
  shows "\<exists>m. monitor_ptr s = Some m \<and>
     (writer_active m \<noteq> 0 \<longrightarrow> readers_active m = 0) \<and>
     (readers_active m > 0 \<longrightarrow> writer_active m = 0) \<and>
     (writer_active m = 0 \<or> writer_active m = 1) \<and>
     readers_active m = int (count_list (pcs s) Reading) \<and>
     writer_active m = int (count_list (pcs s) Writing) \<and>
     count_list (pcs s) Writing \<le> 1 \<and>
     \<not> (Writing \<in> set (pcs s) \<and> Reading \<in> set (pcs s))"
proof -
  have inv: "sync_inv s" by (rule sync_inv_reachable [OF assms])
  then obtain m where m: "monitor_ptr s = Some m"
    by (auto simp: sync_inv_def split: option.splits)
  have I: "readers_active m = int (count_list (pcs s) Reading)"
    "writer_active m = int (count_list (pcs s) Writing)"
    "count_list (pcs s) Writing \<le> 1"
    "count_list (pcs s) Writing = 0 \<or> count_list (pcs s) Reading = 0"
    using inv by (auto simp: sync_inv_def m)
  have "\<not> (Writing \<in> set (pcs s) \<and> Reading \<in> set (pcs s))"
    using I(4) by (auto simp: count_list_0_iff)
  moreover have "writer_active m = 0 \<or> writer_active m = 1"
    using I(2,3) by auto
  moreover have "writer_active m \<noteq> 0 \<longrightarrow> readers_active m = 0"
    using I by auto
  moreover have "readers_active m > 0 \<longrightarrow> writer_active m = 0"
    using I by auto
  ultimately show ?thesis using m I(1,2,3) by blast
qed


text \<open>
  Three threads: thread 0 reads, thread 1 asks to write and waits, thread 0 ends reading,
  thread 1 wakes up and writes.
\<close>

theorem mutual_exclusion_witness:
  "rwlog_create None 3 env_all_ok = (0, Some (created 3)) \<and>
   run (started (created 3) 3)
       [(0, Call_begin_read), (1, Call_begin_write), (0, Call_end_read), (1, Wake_up)]
     = Some \<lparr>monitor_ptr = Some ((created 3)\<lparr>writer_active := 1\<rparr>), pcs = [Idle, Writing, Idle]\<rparr> \<and>
   (\<exists>m. monitor_ptr \<lparr>monitor_ptr = Some ((created 3)\<lparr>writer_active := 1\<rparr>), pcs = [Idle, Writing, Idle]\<rparr>
          = Some m \<and>
      writer_active m = 1 \<and> readers_active m = 0 \<and>
      writer_active m = int (count_list [Idle, Writing, Idle] Writing))"
proof -
  let ?evs = "[(0, Call_begin_read), (1, Call_begin_write), (0, Call_end_read), (1, Wake_up)]"
  let ?s = "\<lparr>monitor_ptr = Some ((created 3)\<lparr>writer_active := 1\<rparr>), pcs = [Idle, Writing, Idle]\<rparr>"
  have c: "rwlog_create None 3 env_all_ok = (0, Some (created 3))"
    by (simp add: rwlog_create_created)
  have r: "run (started (created 3) 3) ?evs = Some ?s"
    by (simp add: run_simps)
  from mutual_exclusion [OF c r] obtain m where m: "monitor_ptr ?s = Some m"
    and x: "writer_active m \<noteq> 0 \<longrightarrow> readers_active m = 0"
    and w: "writer_active m = int (count_list (pcs ?s) Writing)"
    by blast
  have w1: "writer_active m = 1" using w by simp
  then have "readers_active m = 0" using x by simp
  then have "\<exists>m. monitor_ptr ?s = Some m \<and> writer_active m = 1 \<and> readers_active m = 0 \<and>
      writer_active m = int (count_list [Idle, Writing, Idle] Writing)"
    using m w1 w by (intro exI [of _ m]) simp
  then show ?thesis using c r by (intro conjI)
qed

text \<open>
  The invariant is one of threads that call an end only after their begin has returned.
  The monitor does not check it: \<^verbatim>\<open>rwlog_end_read\<close> on a fresh monitor succeeds and
  leaves \<^verbatim>\<open>readers_active\<close> at \<open>-1\<close>.
\<close>

lemma unpaired_end_read:
  "rwlog_end_read (Some (created 3)) = (0, [], Some ((created 3)\<lparr>readers_active := - 1\<rparr>))"
  by (simp add: rwlog_end_read_def created_eq Let_def)

subsection \<open>Writer preference\<close>

text \<open>The only steps that increase \<^verbatim>\<open>readers_active\<close> are those that end \<^verbatim>\<open>rwlog_begin_read\<close>.\<close>

lemma readers_active_step:
  assumes m: "monitor_ptr s = Some m" and step: "sys_step s (t, a) = Some s'"
  shows "\<exists>m'. monitor_ptr s' = Some m' \<and>
     (readers_active m < readers_active m' \<longrightarrow>
        writer_active m = 0 \<and> writers_waiting m \<le> 0 \<and>
        readers_active m' = readers_active m + 1 \<and> pcs s' ! t = Reading \<and>
        (a = Call_begin_read \<and> pcs s ! t = Idle \<or> a = Wake_up \<and> pcs s ! t = Read_wait))"
proof -
  from step obtain g' p' where t: "t < length (pcs s)"
    and ts: "thread_step (Some m) t (pcs s ! t) a = Some (g', p')"
    and s': "s' = \<lparr>monitor_ptr = g', pcs = (pcs s)[t := p']\<rparr>"
    unfolding m [symmetric] by (rule sys_stepD)
  have p': "pcs s' ! t = p'" using t by (simp add: s')
  show ?thesis
    unfolding p' using ts
    by (cases "pcs s ! t"; cases a)
      (auto simp: s' sync_defs sync_counters_append_locked split: if_splits)
qed

text \<open>
  C6. From a state that the threads reach, no step increases \<^verbatim>\<open>readers_active\<close> or takes
  a thread into its reading section while \<^verbatim>\<open>writer_active\<close> is set or
  \<^verbatim>\<open>writers_waiting > 0\<close>. A step that increases \<^verbatim>\<open>readers_active\<close> increases it by one,
  is the end of a \<^verbatim>\<open>rwlog_begin_read\<close> (at the call or after a wake-up), and starts in a
  state where \<^verbatim>\<open>writer_active = 0\<close> and \<^verbatim>\<open>writers_waiting = 0\<close>: no thread is writing and
  none waits to write.
\<close>

theorem writer_preference:
  assumes "rwlog_create None cap env = (0, Some m0)" and "run (started m0 n) evs = Some s"
    and "sys_step s (t, a) = Some s'"
  shows "\<exists>m m'. monitor_ptr s = Some m \<and> monitor_ptr s' = Some m' \<and>
     (readers_active m < readers_active m' \<longrightarrow>
        writer_active m = 0 \<and> writers_waiting m = 0 \<and>
        Writing \<notin> set (pcs s) \<and> Write_wait \<notin> set (pcs s) \<and>
        readers_active m' = readers_active m + 1 \<and> pcs s' ! t = Reading \<and>
        (a = Call_begin_read \<and> pcs s ! t = Idle \<or> a = Wake_up \<and> pcs s ! t = Read_wait)) \<and>
     (pcs s ! t \<noteq> Reading \<and> pcs s' ! t = Reading \<longrightarrow> readers_active m < readers_active m') \<and>
     (writer_active m \<noteq> 0 \<or> 0 < writers_waiting m \<longrightarrow>
        readers_active m' \<le> readers_active m \<and> (pcs s' ! t = Reading \<longrightarrow> pcs s ! t = Reading))"
proof -
  have inv: "sync_inv s" by (rule sync_inv_reachable [OF assms(1,2)])
  have inv': "sync_inv s'" by (rule sync_inv_step [OF inv assms(3)])
  obtain m where m: "monitor_ptr s = Some m"
    using inv by (auto simp: sync_inv_def split: option.splits)
  have I: "readers_active m = int (count_list (pcs s) Reading)"
    "writers_waiting m = int (count_list (pcs s) Write_wait)"
    "writer_active m = int (count_list (pcs s) Writing)"
    using inv by (auto simp: sync_inv_def m)
  from readers_active_step [OF m assms(3)] obtain m' where m': "monitor_ptr s' = Some m'"
    and en: "readers_active m < readers_active m' \<longrightarrow>
        writer_active m = 0 \<and> writers_waiting m \<le> 0 \<and>
        readers_active m' = readers_active m + 1 \<and> pcs s' ! t = Reading \<and>
        (a = Call_begin_read \<and> pcs s ! t = Idle \<or> a = Wake_up \<and> pcs s ! t = Read_wait)"
    by blast
  have I': "readers_active m' = int (count_list (pcs s') Reading)"
    using inv' by (auto simp: sync_inv_def m')
  from assms(3) obtain g' p' where t: "t < length (pcs s)"
    and s': "s' = \<lparr>monitor_ptr = g', pcs = (pcs s)[t := p']\<rparr>"
    by (rule sys_stepD)
  have A: "readers_active m < readers_active m' \<longrightarrow>
        writer_active m = 0 \<and> writers_waiting m = 0 \<and>
        Writing \<notin> set (pcs s) \<and> Write_wait \<notin> set (pcs s) \<and>
        readers_active m' = readers_active m + 1 \<and> pcs s' ! t = Reading \<and>
        (a = Call_begin_read \<and> pcs s ! t = Idle \<or> a = Wake_up \<and> pcs s ! t = Read_wait)"
    using en I by (auto simp: count_list_0_iff)
  have B: "pcs s ! t \<noteq> Reading \<and> pcs s' ! t = Reading \<longrightarrow> readers_active m < readers_active m'"
    using t unfolding I(1) I' by (auto simp: s' count_list_update)
  have C: "writer_active m \<noteq> 0 \<or> 0 < writers_waiting m \<longrightarrow>
        readers_active m' \<le> readers_active m \<and> (pcs s' ! t = Reading \<longrightarrow> pcs s ! t = Reading)"
    using A B by auto
  show ?thesis
    using m m' A B C by blast
qed

text \<open>Thread 0 is writing; thread 1 calls \<^verbatim>\<open>rwlog_begin_read\<close> and has to wait.\<close>

theorem writer_preference_witness:
  "rwlog_create None 3 env_all_ok = (0, Some (created 3)) \<and>
   run (started (created 3) 3) [(0, Call_begin_write)]
     = Some \<lparr>monitor_ptr = Some ((created 3)\<lparr>writer_active := 1\<rparr>), pcs = [Writing, Idle, Idle]\<rparr> \<and>
   sys_step \<lparr>monitor_ptr = Some ((created 3)\<lparr>writer_active := 1\<rparr>), pcs = [Writing, Idle, Idle]\<rparr>
       (1, Call_begin_read)
     = Some \<lparr>monitor_ptr = Some ((created 3)\<lparr>readers_waiting := 1, writer_active := 1\<rparr>),
             pcs = [Writing, Read_wait, Idle]\<rparr> \<and>
   readers_active ((created 3)\<lparr>readers_waiting := 1, writer_active := 1\<rparr>)
     \<le> readers_active ((created 3)\<lparr>writer_active := 1\<rparr>)"
proof -
  let ?s = "\<lparr>monitor_ptr = Some ((created 3)\<lparr>writer_active := 1\<rparr>), pcs = [Writing, Idle, Idle]\<rparr>"
  let ?s' = "\<lparr>monitor_ptr = Some ((created 3)\<lparr>readers_waiting := 1, writer_active := 1\<rparr>),
             pcs = [Writing, Read_wait, Idle]\<rparr>"
  have c: "rwlog_create None 3 env_all_ok = (0, Some (created 3))"
    by (simp add: rwlog_create_created)
  have r: "run (started (created 3) 3) [(0, Call_begin_write)] = Some ?s"
    by (simp add: run_simps)
  have st: "sys_step ?s (1, Call_begin_read) = Some ?s'"
    by (simp add: run_simps)
  from writer_preference [OF c r st] obtain m m' where m: "monitor_ptr ?s = Some m"
    and m': "monitor_ptr ?s' = Some m'"
    and nv: "writer_active m \<noteq> 0 \<or> 0 < writers_waiting m \<longrightarrow> readers_active m' \<le> readers_active m"
    by blast
  have "writer_active m \<noteq> 0" using m by auto
  then have "readers_active m' \<le> readers_active m" using nv by simp
  then have "readers_active ((created 3)\<lparr>readers_waiting := 1, writer_active := 1\<rparr>)
     \<le> readers_active ((created 3)\<lparr>writer_active := 1\<rparr>)"
    using m m' by auto
  then show ?thesis using c r st by (intro conjI)
qed

subsection \<open>Runs of the threads and the ring\<close>

text \<open>
  The steps of the threads other than appends change the four counters only; an append
  step is \<^verbatim>\<open>rwlog_append\<close> called by a thread that is writing, and it changes the ring
  only.
\<close>

lemma ring_of_fields:
  "entries (ring_of m) = entries m" "capacity (ring_of m) = capacity m"
  "head (ring_of m) = head m" "tail (ring_of m) = tail m" "count (ring_of m) = count m"
  "next_seq (ring_of m) = next_seq m"
  by (simp_all add: ring_of_def)

lemma ring_of_live: "live (ring_of m) = live m"
  by (simp add: live_def ring_of_fields)

lemma ring_of_ring_ok: "ring_ok (ring_of m) = ring_ok m"
  by (simp add: ring_ok_def ring_of_fields)

lemma ring_of_ring_idx: "ring_idx (ring_of m) = ring_idx m"
  by (simp add: ring_idx_def ring_of_fields)

lemma ring_of_append_locked:
  "ring_of (append_locked m e self now) = append_locked (ring_of m) e self now"
  by (simp add: append_locked_def Let_def ring_of_def)

lemma ring_of_eqD:
  assumes "ring_of m = ring_of m'"
  shows "entries m = entries m'" "capacity m = capacity m'" "head m = head m'"
    "tail m = tail m'" "count m = count m'" "next_seq m = next_seq m'" "live m = live m'"
    "ring_ok m = ring_ok m'" "ring_idx m = ring_idx m'"
  using ring_of_fields [of m, symmetric] ring_of_live [of m, symmetric]
    ring_of_ring_ok [of m, symmetric] ring_of_ring_idx [of m, symmetric]
  unfolding assms
  by (simp_all add: ring_of_fields ring_of_live ring_of_ring_ok ring_of_ring_idx)

lemma append_step:
  assumes "monitor_ptr s = Some m" and "sys_step s (t, Call_append e now) = Some s'"
  shows "monitor_ptr s' = Some (append_locked m e t now)" and "pcs s ! t = Writing"
    and "rwlog_append (Some m) (Some e) t now = (0, Some (append_locked m e t now))"
    and "pcs s' = pcs s" and "t < length (pcs s)"
proof -
  from assms(2) obtain g' p' where t: "t < length (pcs s)"
    and ts: "thread_step (Some m) t (pcs s ! t) (Call_append e now) = Some (g', p')"
    and s': "s' = \<lparr>monitor_ptr = g', pcs = (pcs s)[t := p']\<rparr>"
    unfolding assms(1) [symmetric] by (rule sys_stepD)
  show w: "pcs s ! t = Writing"
    using ts by (cases "pcs s ! t") simp_all
  show "monitor_ptr s' = Some (append_locked m e t now)"
    using ts unfolding w by (simp add: s' rwlog_append_def)
  show "rwlog_append (Some m) (Some e) t now = (0, Some (append_locked m e t now))"
    by (simp add: rwlog_append_def)
  have "p' = Writing"
    using ts unfolding w by (simp add: rwlog_append_def)
  then show "pcs s' = pcs s"
    using w t by (simp add: s' list_update_same_conv)
  show "t < length (pcs s)" by (rule t)
qed

lemma other_step:
  assumes "monitor_ptr s = Some m" and "sys_step s (t, a) = Some s'"
    and "\<And>e now. a \<noteq> Call_append e now"
  shows "\<exists>m'. monitor_ptr s' = Some m' \<and> ring_of m' = ring_of m"
proof -
  from assms(2) obtain g' p' where t: "t < length (pcs s)"
    and ts: "thread_step (Some m) t (pcs s ! t) a = Some (g', p')"
    and s': "s' = \<lparr>monitor_ptr = g', pcs = (pcs s)[t := p']\<rparr>"
    unfolding assms(1) [symmetric] by (rule sys_stepD)
  show ?thesis
    using ts assms(3)
    by (cases "pcs s ! t"; cases a)
      (auto simp: s' sync_defs ring_of_def split: if_splits)
qed

lemma appends_of_Cons:
  "appends_of ((t, a) # evs) =
     (case a of Call_append e now \<Rightarrow> (e, t, now) # appends_of evs | _ \<Rightarrow> appends_of evs)"
  by (cases a) simp_all

text \<open>The ring after a run is the ring before it with the appends of the run made.\<close>

lemma run_ring:
  "monitor_ptr s = Some m \<Longrightarrow> run s evs = Some s' \<Longrightarrow>
     \<exists>m'. monitor_ptr s' = Some m' \<and> ring_of m' = appends_locked (ring_of m) (appends_of evs)"
proof (induction evs arbitrary: s m)
  case Nil
  then show ?case by simp
next
  case (Cons ev evs)
  obtain t a where ev: "ev = (t, a)" by (cases ev)
  from Cons.prems(2) obtain s1 where s1: "sys_step s (t, a) = Some s1"
    and r: "run s1 evs = Some s'"
    by (auto simp: ev split: option.splits)
  show ?case
  proof (cases "\<exists>e now. a = Call_append e now")
    case True
    then obtain e now where a: "a = Call_append e now" by blast
    have m1: "monitor_ptr s1 = Some (append_locked m e t now)"
      using append_step(1) [OF Cons.prems(1)] s1 unfolding a by simp
    show ?thesis
      using Cons.IH [OF m1 r] by (simp add: ev a ring_of_append_locked)
  next
    case False
    then have na: "\<And>e now. a \<noteq> Call_append e now" by blast
    from other_step [OF Cons.prems(1) s1 na] obtain m1 where m1: "monitor_ptr s1 = Some m1"
      and rg: "ring_of m1 = ring_of m" by blast
    have "appends_of (ev # evs) = appends_of evs"
      using False unfolding ev by (cases a) auto
    then show ?thesis
      using Cons.IH [OF m1 r] rg by simp
  qed
qed

lemma stored_in_run_stamps:
  "monitor_ptr s = Some m \<Longrightarrow> ring_ok m \<Longrightarrow> run s evs = Some s' \<Longrightarrow>
     stored_in_run s evs = stamps (next_seq m) (appends_of evs)"
proof (induction evs arbitrary: s m)
  case Nil
  then show ?case by simp
next
  case (Cons ev evs)
  obtain t a where ev: "ev = (t, a)" by (cases ev)
  from Cons.prems(3) obtain s1 where s1: "sys_step s (t, a) = Some s1"
    and r: "run s1 evs = Some s'"
    by (auto simp: ev split: option.splits)
  show ?case
  proof (cases "\<exists>e now. a = Call_append e now")
    case True
    then obtain e now where a: "a = Call_append e now" by blast
    let ?m1 = "append_locked m e t now"
    have m1: "monitor_ptr s1 = Some ?m1"
      using append_step(1) [OF Cons.prems(1)] s1 unfolding a by simp
    have h: "head m < length (entries m)" using Cons.prems(2) by (simp add: ring_ok_def)
    have "stored_in_run s1 evs = stamps (next_seq m + 1) (appends_of evs)"
      using Cons.IH [OF m1 ring_ok_append_locked [OF Cons.prems(2)] r]
      by (simp add: next_seq_append_locked)
    then show ?thesis
      using s1 m1 Cons.prems(1)
      by (simp add: ev a stored_at_head [OF h] stamped_def)
  next
    case False
    then have na: "\<And>e now. a \<noteq> Call_append e now" by blast
    from other_step [OF Cons.prems(1) s1 na] obtain m1 where m1: "monitor_ptr s1 = Some m1"
      and rg: "ring_of m1 = ring_of m" by blast
    have ok1: "ring_ok m1" using ring_of_eqD(8) [OF rg] Cons.prems(2) by simp
    have ns: "next_seq m1 = next_seq m" by (rule ring_of_eqD(6) [OF rg])
    have "stored_by s (t, a) s1 = []"
      using False by (cases a) auto
    moreover have "appends_of (ev # evs) = appends_of evs"
      using False unfolding ev by (cases a) auto
    ultimately show ?thesis
      using Cons.IH [OF m1 ok1 r] s1 ns by (simp add: ev)
  qed
qed

lemma count_appends_locked:
  "count m \<le> capacity m \<Longrightarrow>
     count (appends_locked m xs) = min (count m + length xs) (capacity m)"
proof (induction xs arbitrary: m)
  case Nil
  then show ?case by simp
next
  case (Cons x xs)
  obtain e self now where x: "x = (e, self, now)" by (cases x)
  have "count (append_locked m e self now) \<le> capacity (append_locked m e self now)"
    using Cons.prems by (simp add: count_append_locked capacity_append_locked)
  from Cons.IH [OF this] show ?case
    using Cons.prems by (auto simp: x count_append_locked capacity_append_locked)
qed

text \<open>What is known of the monitor in a state that the threads reach.\<close>

lemma run_reaches:
  assumes "rwlog_create None cap env = (0, Some m0)" and "run (started m0 n) evs = Some s"
  obtains m where "monitor_ptr s = Some m"
    and "ring_of m = appends_locked m0 (appends_of evs)"
    and "ring_idx m" and "capacity m = cap"
    and "next_seq m = 1 + of_nat (length (appends_of evs))"
    and "count m = min (length (appends_of evs)) cap"
proof -
  note c = rwlog_create_idx [OF assms(1)]
  have "monitor_ptr (started m0 n) = Some m0" by (simp add: started_def)
  from run_ring [OF this assms(2)] obtain m where m: "monitor_ptr s = Some m"
    and rg: "ring_of m = appends_locked m0 (appends_of evs)"
    unfolding c(8) by blast
  let ?mx = "appends_locked m0 (appends_of evs)"
  have "ring_idx m"
    using ring_of_ring_idx [of m] ring_idx_appends_locked [OF c(1), of "appends_of evs"]
    unfolding rg by simp
  moreover have "capacity m = cap"
    using ring_of_fields(2) [of m] unfolding rg by (simp add: capacity_appends_locked c(2))
  moreover have "next_seq m = 1 + of_nat (length (appends_of evs))"
    using ring_of_fields(6) [of m] unfolding rg by (simp add: next_seq_appends_locked c(6))
  moreover have "count m = min (length (appends_of evs)) cap"
    using ring_of_fields(5) [of m] count_appends_locked [of m0 "appends_of evs"] c(2,3)
    unfolding rg by simp
  ultimately show ?thesis using that m rg by blast
qed

lemma run_reaches_fits:
  assumes "rwlog_create None cap env = (0, Some m0)" and "mapping_fits cap env"
    and "run (started m0 n) evs = Some s" and "monitor_ptr s = Some m"
  shows "ring_ok m"
    and "live m = drop (length (appends_of evs) - cap) (stamps 1 (appends_of evs))"
    and "stored_in_run (started m0 n) evs = stamps 1 (appends_of evs)"
proof -
  note c = rwlog_create_ring_ok [OF assms(1,2)]
  from run_reaches [OF assms(1,3)] obtain m1 where m1: "monitor_ptr s = Some m1"
    and rg1: "ring_of m1 = appends_locked m0 (appends_of evs)" by blast
  have rg: "ring_of m = appends_locked m0 (appends_of evs)"
    using m1 rg1 assms(4) by simp
  show "ring_ok m"
    using ring_of_ring_ok [of m] ring_ok_appends_locked [OF c(1), of "appends_of evs"]
    unfolding rg by simp
  show "live m = drop (length (appends_of evs) - cap) (stamps 1 (appends_of evs))"
    using ring_of_live [of m] live_appends_locked [OF c(1), of "appends_of evs"] c
    unfolding rg by simp
  have "monitor_ptr (started m0 n) = Some m0" by (simp add: started_def)
  from stored_in_run_stamps [OF this c(1) assms(3)]
  show "stored_in_run (started m0 n) evs = stamps 1 (appends_of evs)"
    by (simp add: c(6))
qed

lemma writing_writer_active:
  assumes "sync_inv s" and "monitor_ptr s = Some m" and "t < length (pcs s)"
    and "pcs s ! t = Writing"
  shows "writer_active m = 1"
proof -
  have "0 < count_list (pcs s) Writing"
    using count_list_nth_pos [OF assms(3)] assms(4) by simp
  then show ?thesis
    using assms(1) by (auto simp: sync_inv_def assms(2))
qed

lemma begin_write_step:
  assumes "monitor_ptr s = Some m" and "readers_active m \<le> 0" and "writer_active m = 0"
    and "t < length (pcs s)" and "pcs s ! t = Idle"
  shows "sys_step s (t, Call_begin_write) =
     Some \<lparr>monitor_ptr = Some (m\<lparr>writer_active := 1\<rparr>), pcs = (pcs s)[t := Writing]\<rparr>"
  using assms by (simp add: sys_step_def sync_defs)

lemma append_step_ex:
  assumes "monitor_ptr s = Some m" and "t < length (pcs s)" and "pcs s ! t = Writing"
  shows "sys_step s (t, Call_append e now) =
     Some \<lparr>monitor_ptr = Some (append_locked m e t now), pcs = pcs s\<rparr>"
  using assms by (simp add: sys_step_def rwlog_append_def list_update_same_conv)

text \<open>A writer inside its bracket can make any sequence of appends.\<close>

lemma run_appends_ex:
  "monitor_ptr s = Some m \<Longrightarrow> t < length (pcs s) \<Longrightarrow> pcs s ! t = Writing \<Longrightarrow>
     \<exists>s'. run s (map (\<lambda>(e, now). (t, Call_append e now)) ys) = Some s' \<and> pcs s' = pcs s"
proof (induction ys arbitrary: s m)
  case Nil
  then show ?case by simp
next
  case (Cons y ys)
  obtain e now where y: "y = (e, now)" by (cases y)
  let ?s1 = "\<lparr>monitor_ptr = Some (append_locked m e t now), pcs = pcs s\<rparr>"
  have st: "sys_step s (t, Call_append e now) = Some ?s1"
    by (rule append_step_ex [OF Cons.prems])
  have "\<exists>s'. run ?s1 (map (\<lambda>(e, now). (t, Call_append e now)) ys) = Some s' \<and> pcs s' = pcs ?s1"
    using Cons.prems by (intro Cons.IH [of ?s1]) simp_all
  then show ?case using st by (simp add: y)
qed

lemma appends_of_map:
  "appends_of (map (\<lambda>(e, now). (t, Call_append e now)) ys) = map (\<lambda>(e, now). (e, t, now)) ys"
  by (induction ys) auto

lemma appends_of_replicate:
  "appends_of (replicate k (t, Call_append e now)) = replicate k (e, t, now)"
  by (induction k) simp_all

lemma writer_session_ex:
  assumes "rwlog_create None cap env = (0, Some m0)" and "t < n"
  shows "\<exists>s. run (started m0 n)
            ((t, Call_begin_write) # map (\<lambda>(e, now). (t, Call_append e now)) ys) = Some s \<and>
          pcs s = (replicate n Idle)[t := Writing]"
proof -
  let ?s1 = "\<lparr>monitor_ptr = Some (m0\<lparr>writer_active := 1\<rparr>),
             pcs = (pcs (started m0 n))[t := Writing]\<rparr>"
  have "sys_step (started m0 n) (t, Call_begin_write) = Some ?s1"
    using rwlog_create_ok(3) [OF assms(1)] assms(2)
    by (intro begin_write_step) (simp_all add: started_def)
  moreover have "\<exists>s'. run ?s1 (map (\<lambda>(e, now). (t, Call_append e now)) ys) = Some s' \<and>
      pcs s' = pcs ?s1"
    using assms(2) by (intro run_appends_ex [of ?s1]) (simp_all add: started_def)
  ultimately show ?thesis
    by (auto simp: started_def)
qed

lemma create_three: "rwlog_create None 3 env_all_ok = (0, Some (created 3))"
  by (simp add: rwlog_create_created)

lemma fits_three: "mapping_fits 3 env_all_ok"
  by (simp add: mapping_fits_demo)

lemma create_two: "rwlog_create None 2 env_all_ok = (0, Some (created 2))"
  by (simp add: rwlog_create_created)

lemma fits_two: "mapping_fits 2 env_all_ok"
  by (simp add: mapping_fits_demo)

lemma run_begin_write:
  "run (started (created 3) 3) [(0, Call_begin_write)] =
     Some \<lparr>monitor_ptr = Some ((created 3)\<lparr>writer_active := 1\<rparr>), pcs = [Writing, Idle, Idle]\<rparr>"
  by (simp add: run_simps)

lemma run_two_appends:
  "run (started (created 3) 3)
       [(0, Call_begin_write), (0, Call_append (entry_of ''A'') noon),
        (0, Call_append (entry_of ''B'') noon)] =
     Some \<lparr>monitor_ptr = Some (appends_locked ((created 3)\<lparr>writer_active := 1\<rparr>)
               [(entry_of ''A'', 0, noon), (entry_of ''B'', 0, noon)]),
           pcs = [Writing, Idle, Idle]\<rparr>"
  by (simp add: run_simps append_locked_def buffer_index_def)


lemma run_reader_after_writer:
  "run (started (created 3) 3)
       [(0, Call_begin_write), (0, Call_append (entry_of ''A'') noon),
        (0, Call_append (entry_of ''B'') noon), (0, Call_end_write), (1, Call_begin_read)] =
     Some \<lparr>monitor_ptr = Some ((appends_locked (created 3)
               [(entry_of ''A'', 0, noon), (entry_of ''B'', 0, noon)])\<lparr>readers_active := 1\<rparr>),
           pcs = [Idle, Reading, Idle]\<rparr>"
  by (simp add: run_simps append_locked_def buffer_index_def)

subsection \<open>What append returns\<close>

text \<open>
  C2 (amended). In every state that the threads reach from the created monitor, whatever the
  four counters are, \<^verbatim>\<open>rwlog_append\<close> of an entry returns the status \<open>0\<close>, not a sequence
  number, and adds one to \<^verbatim>\<open>next_seq\<close>, which is one more than the number of appends of
  the run. Every append step of a run is such a call, made by a thread inside its write
  bracket (\<^verbatim>\<open>writer_active = 1\<close>). Where the mapped array holds \<^verbatim>\<open>capacity\<close> entries,
  the sequence number assigned, the value of \<^verbatim>\<open>next_seq\<close> at the call, is the \<^verbatim>\<open>seq\<close>
  field of the entry stored at slot \<^verbatim>\<open>head\<close>.
\<close>

theorem append_returns_status:
  assumes "rwlog_create None cap env = (0, Some m0)" and "run (started m0 n) evs = Some s"
  shows "\<exists>m. monitor_ptr s = Some m \<and>
     next_seq m = 1 + of_nat (length (appends_of evs)) \<and>
     (\<forall>e self now. \<exists>m'.
        rwlog_append (Some m) (Some e) self now = (0, Some m') \<and>
        next_seq m' = next_seq m + 1 \<and>
        (mapping_fits cap env \<longrightarrow> seq (entries m' ! head m) = next_seq m)) \<and>
     (\<forall>t e now s'. sys_step s (t, Call_append e now) = Some s' \<longrightarrow>
        pcs s ! t = Writing \<and> writer_active m = 1 \<and>
        (\<exists>m'. monitor_ptr s' = Some m' \<and>
           rwlog_append (Some m) (Some e) t now = (0, Some m')))"
proof -
  from run_reaches [OF assms] obtain m where m: "monitor_ptr s = Some m"
    and ns: "next_seq m = 1 + of_nat (length (appends_of evs))" by blast
  have inv: "sync_inv s" by (rule sync_inv_reachable [OF assms])
  have A: "\<exists>m'. rwlog_append (Some m) (Some e) self now = (0, Some m') \<and>
        next_seq m' = next_seq m + 1 \<and>
        (mapping_fits cap env \<longrightarrow> seq (entries m' ! head m) = next_seq m)" for e self now
  proof -
    have "seq (entries (append_locked m e self now) ! head m) = next_seq m"
      if f: "mapping_fits cap env"
    proof -
      have "head m < length (entries m)"
        using run_reaches_fits(1) [OF assms(1) f assms(2) m] by (simp add: ring_ok_def)
      then show ?thesis by (simp add: stored_at_head stamped_def)
    qed
    then show ?thesis
      by (simp add: rwlog_append_def next_seq_append_locked)
  qed
  have B: "pcs s ! t = Writing \<and> writer_active m = 1 \<and>
        (\<exists>m'. monitor_ptr s' = Some m' \<and>
           rwlog_append (Some m) (Some e) t now = (0, Some m'))"
    if st: "sys_step s (t, Call_append e now) = Some s'" for t e now s'
    using append_step [OF m st] writing_writer_active [OF inv m] by simp
  show ?thesis
    using m ns A B by blast
qed

text \<open>Thread 0 has begun to write; its first append on a monitor of capacity 3.\<close>

theorem append_returns_status_witness:
  "rwlog_create None 3 env_all_ok = (0, Some (created 3)) \<and>
   run (started (created 3) 3) [(0, Call_begin_write)] =
     Some \<lparr>monitor_ptr = Some ((created 3)\<lparr>writer_active := 1\<rparr>), pcs = [Writing, Idle, Idle]\<rparr> \<and>
   mapping_fits 3 env_all_ok \<and>
   writer_active ((created 3)\<lparr>writer_active := 1\<rparr>) = 1 \<and>
   (\<exists>m'. rwlog_append (Some ((created 3)\<lparr>writer_active := 1\<rparr>)) (Some (entry_of ''A'')) 0 noon
            = (0, Some m') \<and>
      next_seq m' = next_seq ((created 3)\<lparr>writer_active := 1\<rparr>) + 1 \<and>
      seq (entries m' ! head ((created 3)\<lparr>writer_active := 1\<rparr>))
        = next_seq ((created 3)\<lparr>writer_active := 1\<rparr>))"
proof -
  let ?m = "(created 3)\<lparr>writer_active := 1\<rparr>"
  let ?s = "\<lparr>monitor_ptr = Some ?m, pcs = [Writing, Idle, Idle]\<rparr>"
  note c = create_three and r = run_begin_write and f = fits_three
  from append_returns_status [OF c r] obtain m where m: "monitor_ptr ?s = Some m"
    and A: "\<forall>e self now. \<exists>m'.
        rwlog_append (Some m) (Some e) self now = (0, Some m') \<and>
        next_seq m' = next_seq m + 1 \<and>
        (mapping_fits 3 env_all_ok \<longrightarrow> seq (entries m' ! head m) = next_seq m)"
    by blast
  have me: "m = ?m" using m by simp
  from A obtain m' where "rwlog_append (Some m) (Some (entry_of ''A'')) 0 noon = (0, Some m')"
    and "next_seq m' = next_seq m + 1"
    and "mapping_fits 3 env_all_ok \<longrightarrow> seq (entries m' ! head m) = next_seq m"
    by blast
  then have "\<exists>m'. rwlog_append (Some ?m) (Some (entry_of ''A'')) 0 noon = (0, Some m') \<and>
      next_seq m' = next_seq ?m + 1 \<and> seq (entries m' ! head ?m) = next_seq ?m"
    using f unfolding me by blast
  moreover have "writer_active ?m = 1" by simp
  ultimately show ?thesis using c r f by (intro conjI)
qed

text \<open>
  C2 as stated fails: the first append on a fresh monitor assigns sequence number 1 and
  returns 0.
\<close>

theorem append_returns_sequence_counterexample:
  "fst (rwlog_append (Some (created 3)) (Some (entry_of ''A'')) 7 noon) \<noteq>
   uint (seq (entries (the (snd (rwlog_append (Some (created 3)) (Some (entry_of ''A'')) 7 noon)))
                ! head (created 3)))"
  by (simp add: created_eq demo_simps)

subsection \<open>Capacity bound and eviction\<close>




subsection \<open>What append stores\<close>

text \<open>
  C7 (amended). In every state that the threads reach from a monitor whose mapped array holds
  \<^verbatim>\<open>capacity\<close> entries, the copy that \<^verbatim>\<open>rwlog_append\<close> stores at slot \<^verbatim>\<open>head\<close> is
  the caller's entry with three fields set by the monitor: \<^verbatim>\<open>seq\<close> (the value of
  \<^verbatim>\<open>next_seq\<close>), \<^verbatim>\<open>tid\<close> (\<^verbatim>\<open>pthread_self()\<close> of the calling thread, whatever the caller
  put there) and \<^verbatim>\<open>ts\<close> (the clock). Only the message is the caller's. No other slot of
  the buffer and none of the four counters changes.
\<close>

theorem append_frame:
  assumes "rwlog_create None cap env = (0, Some m0)" and "mapping_fits cap env"
    and "run (started m0 n) evs = Some s" and "monitor_ptr s = Some m"
    and "rwlog_append (Some m) (Some e) self now = (r, Some m')"
  shows "entries m' ! head m = e\<lparr>seq := next_seq m, tid := self, ts := now\<rparr> \<and>
     msg (entries m' ! head m) = msg e \<and>
     seq (entries m' ! head m) = next_seq m \<and>
     tid (entries m' ! head m) = self \<and>
     ts (entries m' ! head m) = now \<and>
     length (entries m') = length (entries m) \<and>
     (\<forall>i. i < cap \<and> i \<noteq> head m \<longrightarrow> entries m' ! i = entries m ! i) \<and>
     readers_active m' = readers_active m \<and> readers_waiting m' = readers_waiting m \<and>
     writers_waiting m' = writers_waiting m \<and> writer_active m' = writer_active m"
proof -
  note ok = run_reaches_fits(1) [OF assms(1,2,3,4)]
  have m': "m' = append_locked m e self now"
    using assms(5) by (simp add: rwlog_append_def)
  have h: "head m < length (entries m)"
    using ok by (simp add: ring_ok_def)
  have "entries m' ! head m = e\<lparr>seq := next_seq m, tid := self, ts := now\<rparr>"
    unfolding m' by (simp add: stored_at_head [OF h] stamped_def)
  moreover have "length (entries m') = length (entries m)"
    unfolding m' by (simp add: append_locked_eq [OF h])
  moreover have "\<forall>i. i < cap \<and> i \<noteq> head m \<longrightarrow> entries m' ! i = entries m ! i"
    unfolding m' by (simp add: append_locked_eq [OF h])
  ultimately show ?thesis
    unfolding m' by (simp add: sync_counters_append_locked)
qed

text \<open>
  Thread 0 has begun to write and appends an entry that it handed over with \<^verbatim>\<open>tid = 5\<close>.
\<close>

theorem append_frame_witness:
  "rwlog_create None 3 env_all_ok = (0, Some (created 3)) \<and>
   mapping_fits 3 env_all_ok \<and>
   run (started (created 3) 3) [(0, Call_begin_write)] =
     Some \<lparr>monitor_ptr = Some ((created 3)\<lparr>writer_active := 1\<rparr>), pcs = [Writing, Idle, Idle]\<rparr> \<and>
   rwlog_append (Some ((created 3)\<lparr>writer_active := 1\<rparr>))
       (Some ((entry_of ''A'')\<lparr>tid := 5\<rparr>)) 0 noon
     = (0, Some (append_locked ((created 3)\<lparr>writer_active := 1\<rparr>)
                   ((entry_of ''A'')\<lparr>tid := 5\<rparr>) 0 noon)) \<and>
   entries (append_locked ((created 3)\<lparr>writer_active := 1\<rparr>)
                   ((entry_of ''A'')\<lparr>tid := 5\<rparr>) 0 noon) ! head ((created 3)\<lparr>writer_active := 1\<rparr>)
     = (entry_of ''A'')\<lparr>seq := 1, tid := 0, ts := noon\<rparr> \<and>
   msg (entries (append_locked ((created 3)\<lparr>writer_active := 1\<rparr>)
                   ((entry_of ''A'')\<lparr>tid := 5\<rparr>) 0 noon) ! head ((created 3)\<lparr>writer_active := 1\<rparr>))
     = ''A''"
proof -
  let ?m = "(created 3)\<lparr>writer_active := 1\<rparr>"
  let ?e = "(entry_of ''A'')\<lparr>tid := 5\<rparr>"
  let ?m' = "append_locked ?m ?e 0 noon"
  let ?s = "\<lparr>monitor_ptr = Some ?m, pcs = [Writing, Idle, Idle]\<rparr>"
  note c = create_three and f = fits_three and r = run_begin_write
  have mp: "monitor_ptr ?s = Some ?m" by simp
  have b: "rwlog_append (Some ?m) (Some ?e) 0 noon = (0, Some ?m')"
    by (simp add: rwlog_append_def)
  have "entries ?m' ! head ?m = ?e\<lparr>seq := next_seq ?m, tid := 0, ts := noon\<rparr>"
    and "msg (entries ?m' ! head ?m) = msg ?e"
    using append_frame [OF c f r mp b] by blast+
  then have "entries ?m' ! head ?m = (entry_of ''A'')\<lparr>seq := 1, tid := 0, ts := noon\<rparr>"
    and "msg (entries ?m' ! head ?m) = ''A''"
    by (simp_all add: created_eq entry_of_def)
  then show ?thesis using c f r b by (intro conjI)
qed

text \<open>
  C7 as stated fails: an entry handed over with \<^verbatim>\<open>tid = 5\<close> by thread 7 is stored with
  \<^verbatim>\<open>tid = 7\<close>.
\<close>

theorem producer_id_kept_counterexample:
  "tid (entries (the (snd (rwlog_append (Some (created 3))
                            (Some ((entry_of ''A'')\<lparr>tid := 5\<rparr>)) 7 noon)))
          ! head (created 3)) \<noteq> tid ((entry_of ''A'')\<lparr>tid := 5\<rparr>)"
  by (simp add: created_eq demo_simps)

subsection \<open>Snapshots\<close>

text \<open>The copy loop fills the first \<open>n\<close> places of the buffer and leaves the rest.\<close>

lemma snapshot_copy_eq:
  "n \<le> length buf \<Longrightarrow>
     snapshot_copy m st n buf =
       map (\<lambda>i. entries m ! buffer_index (st + i) (capacity m)) [0..<n] @ drop n buf"
proof (induction n)
  case 0
  then show ?case by (simp add: snapshot_copy_def)
next
  case (Suc n)
  let ?f = "\<lambda>i. entries m ! buffer_index (st + i) (capacity m)"
  have n: "n < length buf" using Suc.prems by simp
  have "snapshot_copy m st (Suc n) buf = (snapshot_copy m st n buf)[n := ?f n]"
    by (simp add: snapshot_copy_def)
  also have "\<dots> = (map ?f [0..<n] @ drop n buf)[n := ?f n]"
    using Suc.IH n by simp
  also have "\<dots> = map ?f [0..<n] @ (drop n buf)[0 := ?f n]"
    by (simp add: list_update_append)
  also have "drop n buf = buf ! n # drop (Suc n) buf"
    using n by (simp add: Cons_nth_drop_Suc)
  finally show ?case by simp
qed

lemma take_live:
  "k \<le> count m \<Longrightarrow>
     take k (live m) = map (\<lambda>i. entries m ! buffer_index (tail m + i) (capacity m)) [0..<k]"
  by (simp add: live_def take_map min_def)

lemma rwlog_snapshot_eq:
  assumes "min (count m) max_entries \<le> length buf"
  shows "rwlog_snapshot (Some m) (Some buf) max_entries =
     (int (min (count m) max_entries),
      Some (take (min (count m) max_entries) (live m) @ drop (min (count m) max_entries) buf),
      Some m)"
proof (cases "max_entries = 0")
  case True
  then show ?thesis by (simp add: rwlog_snapshot_def)
next
  case False
  let ?k = "min (count m) max_entries"
  have k: "(if count m < max_entries then count m else max_entries) = ?k"
    by (simp add: min_def)
  have "snapshot_copy m (tail m) ?k buf = take ?k (live m) @ drop ?k buf"
    using assms by (simp add: snapshot_copy_eq take_live)
  moreover have "?k = 0 \<Longrightarrow> buf = take ?k (live m) @ drop ?k buf"
    by simp
  ultimately show ?thesis
    using False unfolding rwlog_snapshot_def k Let_def by auto
qed

lemma map_seq_stamps: "map seq (stamps s xs) = map (\<lambda>i. s + of_nat i) [0..<length xs]"
  by (intro nth_equalityI) (simp_all add: length_stamps seq_stamps)

lemma unat_succ_of_nat:
  "i + 1 < 2 ^ 64 \<Longrightarrow> unat (1 + word_of_nat i :: 64 word) = i + 1"
proof -
  assume i: "i + 1 < 2 ^ 64"
  have "(1 + word_of_nat i :: 64 word) = word_of_nat (i + 1)" by simp
  then have "unat (1 + word_of_nat i :: 64 word) = (i + 1) mod 2 ^ 64"
    by (simp only: unat_of_nat) simp
  then show ?thesis using i by simp
qed

lemma seq_live_run:
  assumes "rwlog_create None cap env = (0, Some m0)" and "mapping_fits cap env"
    and "run (started m0 n) evs = Some s" and "monitor_ptr s = Some m" and "i < count m"
  shows "seq (live m ! i) = 1 + of_nat (length (appends_of evs) - cap + i)"
proof -
  from run_reaches [OF assms(1,3)] obtain m1 where "monitor_ptr s = Some m1"
    and "count m1 = min (length (appends_of evs)) cap" by blast
  then have cnt: "count m = min (length (appends_of evs)) cap" using assms(4) by simp
  have "length (appends_of evs) - cap + i < length (appends_of evs)"
    using assms(5) cnt by auto
  then show ?thesis
    unfolding run_reaches_fits(2) [OF assms(1,2,3,4)]
    by (simp add: length_stamps seq_stamps)
qed

lemma sorted_live_run:
  assumes "rwlog_create None cap env = (0, Some m0)" and "mapping_fits cap env"
    and "run (started m0 n) evs = Some s" and "monitor_ptr s = Some m"
    and "length (appends_of evs) < 2 ^ 64"
  shows "sorted_wrt (<) (map seq (take k (live m)))"
proof -
  from run_reaches [OF assms(1,3)] obtain m1 where "monitor_ptr s = Some m1"
    and "count m1 = min (length (appends_of evs)) cap" by blast
  then have cnt: "count m = min (length (appends_of evs)) cap" using assms(4) by simp
  let ?b = "length (appends_of evs) - cap"
  have un: "unat (seq (live m ! i)) = ?b + i + 1" if "i < count m" for i
  proof -
    have "?b + i + 1 < 2 ^ 64" using that cnt assms(5) by auto
    from unat_succ_of_nat [OF this] show ?thesis
      unfolding seq_live_run [OF assms(1,2,3,4) that] .
  qed
  have "seq (live m ! i) < seq (live m ! j)" if "i < j" "j < count m" for i j
    using that un [of i] un [of j] by (simp add: word_less_nat_alt)
  then have "sorted_wrt (<) (map seq (live m))"
    by (simp add: sorted_wrt_iff_nth_less length_live)
  then show ?thesis
    by (simp add: take_map [symmetric] sorted_wrt_take)
qed

lemma snapshot_step:
  assumes "sync_inv s" and "monitor_ptr s = Some m"
    and "sys_step s (t, Call_snapshot buf k) = Some s'"
  shows "s' = s" and "pcs s ! t = Reading" and "0 < readers_active m"
proof -
  from assms(3) obtain g' p' where t: "t < length (pcs s)"
    and ts: "thread_step (Some m) t (pcs s ! t) (Call_snapshot buf k) = Some (g', p')"
    and s': "s' = \<lparr>monitor_ptr = g', pcs = (pcs s)[t := p']\<rparr>"
    unfolding assms(2) [symmetric] by (rule sys_stepD)
  show w: "pcs s ! t = Reading"
    using ts by (cases "pcs s ! t") simp_all
  have "g' = Some m \<and> p' = Reading"
    using ts unfolding w by (auto simp: rwlog_snapshot_def Let_def split: if_splits)
  then show "s' = s"
    using w t assms(2) by (simp add: s' list_update_same_conv)
  have "0 < count_list (pcs s) Reading"
    using count_list_nth_pos [OF t] w by simp
  then show "0 < readers_active m"
    using assms(1) by (auto simp: sync_inv_def assms(2))
qed

lemma ten_to_fourteen:
  assumes "rwlog_create None 5 env = (0, Some m5)" and "mapping_fits 5 env"
    and "run (started m5 j) evs = Some s" and "monitor_ptr s = Some m"
    and "length (appends_of evs) = 14" and "2 \<le> length b"
  shows "map seq (live m) = [10, 11, 12, 13, 14] \<and>
     (\<exists>b'. rwlog_snapshot (Some m) (Some b) 2 = (2, Some b', Some m) \<and>
        map seq (take 2 b') = [10, 11] \<and> drop 2 b' = drop 2 b)"
proof -
  from run_reaches [OF assms(1,3)] obtain m1 where "monitor_ptr s = Some m1"
    and "count m1 = min (length (appends_of evs)) 5" by blast
  then have cnt: "count m = 5" using assms(4,5) by simp
  have "map seq (live m) = drop 9 (map (\<lambda>i. 1 + of_nat i) [0..<14])"
    unfolding run_reaches_fits(2) [OF assms(1,2,3,4)] drop_map [symmetric] map_seq_stamps
    using assms(5) by simp
  also have "\<dots> = map (\<lambda>i. 1 + of_nat i) [9..<14]"
    by (simp add: drop_map)
  also have "\<dots> = [10, 11, 12, 13, 14]"
    by (simp add: upt_rec [of 9] upt_rec [of 10] upt_rec [of 11] upt_rec [of 12] upt_rec [of 13]
        upt_rec [of 14])
  finally have sq: "map seq (live m) = [10, 11, 12, 13, 14]" .
  have k: "min (count m) 2 = 2" using cnt by simp
  have sn: "rwlog_snapshot (Some m) (Some b) 2 = (2, Some (take 2 (live m) @ drop 2 b), Some m)"
    using rwlog_snapshot_eq [of m 2 b] assms(6) unfolding k by simp
  have len: "length (live m) = 5" using cnt by (simp add: length_live)
  have "map seq (take 2 (take 2 (live m) @ drop 2 b)) = take 2 (map seq (live m))"
    using len by (simp add: take_map)
  also have "\<dots> = [10, 11]" unfolding sq by simp
  finally have tk: "map seq (take 2 (take 2 (live m) @ drop 2 b)) = [10, 11]" .
  have dr: "drop 2 (take 2 (live m) @ drop 2 b) = drop 2 b"
    using len by simp
  have "\<exists>b'. rwlog_snapshot (Some m) (Some b) 2 = (2, Some b', Some m) \<and>
        map seq (take 2 b') = [10, 11] \<and> drop 2 b' = drop 2 b"
    by (intro exI conjI) (rule sn, rule tk, rule dr)
  then show ?thesis using sq by (intro conjI)
qed

text \<open>
  C4 (amended). In every state that the threads reach from the created monitor, whatever the
  four counters are, \<^verbatim>\<open>rwlog_snapshot(buf, max_entries)\<close> into a buffer that holds
  \<open>min count max_entries\<close> entries returns that number, writes to the front of the buffer
  that many live entries starting from the one at \<^verbatim>\<open>tail\<close>, leaves the rest of the buffer
  alone, and returns the monitor as it was; the snapshot step of a reader inside its read
  bracket leaves the whole state as it was. The live entries are the slots \<^verbatim>\<open>tail\<close>,
  \<^verbatim>\<open>tail + 1\<close>, ... around the ring, and \<^verbatim>\<open>count\<close> is the number of appends of the run
  or the capacity, whichever is smaller. Where the mapped array holds \<^verbatim>\<open>capacity\<close>
  entries, the live entries are the last \<^verbatim>\<open>count\<close> stored copies of the run in the order
  of the appends, the sequence number of each is the one before it plus one modulo \<open>2^64\<close>,
  and they are in increasing order of sequence number as long as the run has made fewer than
  \<open>2^64\<close> appends. With 5 live entries of sequence numbers 10 to 14, a snapshot of 2
  returns those with 10 and 11, in that order.
\<close>

theorem snapshot_semantics:
  assumes "rwlog_create None cap env = (0, Some m0)" and "run (started m0 n) evs = Some s"
    and "monitor_ptr s = Some m"
    and "min (count m) max_entries \<le> length buf"
  shows "rwlog_snapshot (Some m) (Some buf) max_entries =
       (int (min (count m) max_entries),
        Some (take (min (count m) max_entries) (live m) @ drop (min (count m) max_entries) buf),
        Some m) \<and>
     (\<forall>t s'. sys_step s (t, Call_snapshot buf max_entries) = Some s' \<longrightarrow>
        s' = s \<and> pcs s ! t = Reading \<and> 0 < readers_active m) \<and>
     count m = min (length (appends_of evs)) cap \<and>
     (\<forall>i. i < count m \<longrightarrow> live m ! i = entries m ! ((tail m + i) mod cap)) \<and>
     (mapping_fits cap env \<longrightarrow>
        live m = drop (length (appends_of evs) - cap) (stored_in_run (started m0 n) evs) \<and>
        (\<forall>i. i < count m \<longrightarrow> seq (live m ! i) = seq (live m ! 0) + of_nat i) \<and>
        (length (appends_of evs) < 2 ^ 64 \<longrightarrow>
           sorted_wrt (<) (map seq (take (min (count m) max_entries) (live m))))) \<and>
     (\<forall>m5 j evs5 s5 m14 b.
        rwlog_create None 5 env = (0, Some m5) \<and> mapping_fits 5 env \<and>
        run (started m5 j) evs5 = Some s5 \<and> monitor_ptr s5 = Some m14 \<and>
        length (appends_of evs5) = 14 \<and> 2 \<le> length b \<longrightarrow>
        map seq (live m14) = [10, 11, 12, 13, 14] \<and>
        (\<exists>b'. rwlog_snapshot (Some m14) (Some b) 2 = (2, Some b', Some m14) \<and>
           map seq (take 2 b') = [10, 11] \<and> drop 2 b' = drop 2 b))"
proof -
  from run_reaches [OF assms(1,2)] obtain m1 where "monitor_ptr s = Some m1"
    and "capacity m1 = cap" and "count m1 = min (length (appends_of evs)) cap" by blast
  then have cp: "capacity m = cap" and cnt: "count m = min (length (appends_of evs)) cap"
    using assms(3) by simp_all
  have inv: "sync_inv s" by (rule sync_inv_reachable [OF assms(1,2)])
  have A: "\<forall>t s'. sys_step s (t, Call_snapshot buf max_entries) = Some s' \<longrightarrow>
        s' = s \<and> pcs s ! t = Reading \<and> 0 < readers_active m"
    using snapshot_step [OF inv assms(3)] by blast
  have nth: "\<forall>i. i < count m \<longrightarrow> live m ! i = entries m ! ((tail m + i) mod cap)"
    using cp by (simp add: live_def buffer_index_def)
  have B: "live m = drop (length (appends_of evs) - cap) (stored_in_run (started m0 n) evs) \<and>
        (\<forall>i. i < count m \<longrightarrow> seq (live m ! i) = seq (live m ! 0) + of_nat i) \<and>
        (length (appends_of evs) < 2 ^ 64 \<longrightarrow>
           sorted_wrt (<) (map seq (take (min (count m) max_entries) (live m))))"
    if f: "mapping_fits cap env"
  proof -
    note l = run_reaches_fits [OF assms(1) f assms(2,3)]
    have sq: "seq (live m ! i) = seq (live m ! 0) + of_nat i" if "i < count m" for i
    proof -
      have "0 < count m" using that by simp
      then show ?thesis
        using seq_live_run [OF assms(1) f assms(2,3) that]
          seq_live_run [OF assms(1) f assms(2,3), of 0]
        by simp
    qed
    have lv: "live m = drop (length (appends_of evs) - cap) (stored_in_run (started m0 n) evs)"
      unfolding l(3) by (rule l(2))
    have sqa: "\<forall>i. i < count m \<longrightarrow> seq (live m ! i) = seq (live m ! 0) + of_nat i"
      using sq by blast
    have so: "length (appends_of evs) < 2 ^ 64 \<longrightarrow>
           sorted_wrt (<) (map seq (take (min (count m) max_entries) (live m)))"
      using sorted_live_run [OF assms(1) f assms(2,3)] by blast
    show ?thesis
      by (intro conjI) (rule lv, rule sqa, rule so)
  qed
  have ex: "\<forall>m5 j evs5 s5 m14 b.
        rwlog_create None 5 env = (0, Some m5) \<and> mapping_fits 5 env \<and>
        run (started m5 j) evs5 = Some s5 \<and> monitor_ptr s5 = Some m14 \<and>
        length (appends_of evs5) = 14 \<and> 2 \<le> length b \<longrightarrow>
        map seq (live m14) = [10, 11, 12, 13, 14] \<and>
        (\<exists>b'. rwlog_snapshot (Some m14) (Some b) 2 = (2, Some b', Some m14) \<and>
           map seq (take 2 b') = [10, 11] \<and> drop 2 b' = drop 2 b)"
  proof (intro allI impI)
    fix m5 j s5 m14 and evs5 :: "(nat \<times> action) list" and b :: "rwlog_entry list"
    assume "rwlog_create None 5 env = (0, Some m5) \<and> mapping_fits 5 env \<and>
        run (started m5 j) evs5 = Some s5 \<and> monitor_ptr s5 = Some m14 \<and>
        length (appends_of evs5) = 14 \<and> 2 \<le> length b"
    then have h: "rwlog_create None 5 env = (0, Some m5)" "mapping_fits 5 env"
      "run (started m5 j) evs5 = Some s5" "monitor_ptr s5 = Some m14"
      "length (appends_of evs5) = 14" "2 \<le> length b"
      by simp_all
    show "map seq (live m14) = [10, 11, 12, 13, 14] \<and>
        (\<exists>b'. rwlog_snapshot (Some m14) (Some b) 2 = (2, Some b', Some m14) \<and>
           map seq (take 2 b') = [10, 11] \<and> drop 2 b' = drop 2 b)"
      by (rule ten_to_fourteen [OF h])
  qed
  have B': "mapping_fits cap env \<longrightarrow>
        live m = drop (length (appends_of evs) - cap) (stored_in_run (started m0 n) evs) \<and>
        (\<forall>i. i < count m \<longrightarrow> seq (live m ! i) = seq (live m ! 0) + of_nat i) \<and>
        (length (appends_of evs) < 2 ^ 64 \<longrightarrow>
           sorted_wrt (<) (map seq (take (min (count m) max_entries) (live m))))"
    using B by (rule impI)
  show ?thesis
    by (intro conjI) (rule rwlog_snapshot_eq [OF assms(4)], rule A, rule cnt, rule nth,
        rule B', rule ex)
qed

text \<open>
  Capacity 3: thread 0 appends two entries and ends writing, thread 1 begins to read and
  takes a snapshot of one entry into a buffer of two.
\<close>

theorem snapshot_semantics_witness:
  "rwlog_create None 3 env_all_ok = (0, Some (created 3)) \<and>
   run (started (created 3) 3)
       [(0, Call_begin_write), (0, Call_append (entry_of ''A'') noon),
        (0, Call_append (entry_of ''B'') noon), (0, Call_end_write), (1, Call_begin_read)] =
     Some \<lparr>monitor_ptr = Some ((appends_locked (created 3)
               [(entry_of ''A'', 0, noon), (entry_of ''B'', 0, noon)])\<lparr>readers_active := 1\<rparr>),
           pcs = [Idle, Reading, Idle]\<rparr> \<and>
   min (count ((appends_locked (created 3)
               [(entry_of ''A'', 0, noon), (entry_of ''B'', 0, noon)])\<lparr>readers_active := 1\<rparr>)) 1
     \<le> length [blank_entry, blank_entry] \<and>
   readers_active ((appends_locked (created 3)
               [(entry_of ''A'', 0, noon), (entry_of ''B'', 0, noon)])\<lparr>readers_active := 1\<rparr>) = 1 \<and>
   rwlog_snapshot
       (Some ((appends_locked (created 3)
               [(entry_of ''A'', 0, noon), (entry_of ''B'', 0, noon)])\<lparr>readers_active := 1\<rparr>))
       (Some [blank_entry, blank_entry]) 1
     = (1, Some [(entry_of ''A'')\<lparr>seq := 1, tid := 0, ts := noon\<rparr>, blank_entry],
        Some ((appends_locked (created 3)
               [(entry_of ''A'', 0, noon), (entry_of ''B'', 0, noon)])\<lparr>readers_active := 1\<rparr>))"
proof -
  let ?m = "(appends_locked (created 3)
               [(entry_of ''A'', 0, noon), (entry_of ''B'', 0, noon)])\<lparr>readers_active := 1\<rparr>"
  let ?s = "\<lparr>monitor_ptr = Some ?m, pcs = [Idle, Reading, Idle]\<rparr>"
  let ?buf = "[blank_entry, blank_entry]"
  note c = create_three and f = fits_three and r = run_reader_after_writer
  have mp: "monitor_ptr ?s = Some ?m" by simp
  have b: "min (count ?m) 1 \<le> length ?buf" by simp
  have ra: "readers_active ?m = 1" by simp
  have k: "count ?m = 2"
    by (simp add: created_eq append_locked_def Let_def buffer_index_def)
  have l: "live ?m = [(entry_of ''A'')\<lparr>seq := 1, tid := 0, ts := noon\<rparr>,
                      (entry_of ''B'')\<lparr>seq := 2, tid := 0, ts := noon\<rparr>]"
    using run_reaches_fits(2) [OF c f r mp] by simp
  have "rwlog_snapshot (Some ?m) (Some ?buf) 1 =
       (int (min (count ?m) 1), Some (take (min (count ?m) 1) (live ?m) @ drop (min (count ?m) 1) ?buf),
        Some ?m)"
    using snapshot_semantics [OF c r mp b] by (rule conjunct1)
  then have "rwlog_snapshot (Some ?m) (Some ?buf) 1 =
       (1, Some [(entry_of ''A'')\<lparr>seq := 1, tid := 0, ts := noon\<rparr>, blank_entry], Some ?m)"
    unfolding k l by simp
  then show ?thesis using c r b ra by (intro conjI)
qed

text \<open>
  C4 as stated fails where the counter wraps: after \<open>2^64\<close> appends on a monitor of
  capacity 2 the snapshot holds the sequence numbers \<open>2^64 - 1\<close> and 0, in that order.
\<close>

theorem snapshot_unsorted_counterexample:
  "map seq (take 2 (the (fst (snd (rwlog_snapshot
       (monitor_ptr (the (run (started (created 2) 1)
          ((0, Call_begin_write)
           # replicate 18446744073709551616 (0, Call_append (entry_of ''x'') noon)))))
       (Some [blank_entry, blank_entry]) 2)))))
     = [18446744073709551615, 0] \<and>
   \<not> sorted_wrt (<) (map seq (take 2 (the (fst (snd (rwlog_snapshot
       (monitor_ptr (the (run (started (created 2) 1)
          ((0, Call_begin_write)
           # replicate 18446744073709551616 (0, Call_append (entry_of ''x'') noon)))))
       (Some [blank_entry, blank_entry]) 2))))))"
proof -
  let ?ys = "replicate 18446744073709551616 (entry_of ''x'', noon)"
  let ?evs = "(0, Call_begin_write)
           # replicate 18446744073709551616 (0, Call_append (entry_of ''x'') noon)"
  let ?buf = "[blank_entry, blank_entry]"
  note c = create_two and f = fits_two
  have evs: "?evs = (0, Call_begin_write) # map (\<lambda>(e, now). (0, Call_append e now)) ?ys"
    by simp
  from writer_session_ex [OF c, of 0 1 ?ys]
  obtain s where r: "run (started (created 2) 1) ?evs = Some s"
    unfolding evs by auto
  from run_reaches [OF c r] obtain m where m: "monitor_ptr s = Some m"
    and cnt: "count m = min (length (appends_of ?evs)) 2" by blast
  have len: "length (appends_of ?evs) = 18446744073709551616"
    by (simp add: appends_of_replicate)
  have k: "count m = 2" using cnt unfolding len by simp
  have s0: "seq (live m ! 0) = 18446744073709551615"
    using seq_live_run [OF c f r m, of 0] unfolding len k by simp
  have s1: "seq (live m ! 1) = 0"
    using seq_live_run [OF c f r m, of 1] unfolding len k by simp
  have l2: "length (live m) = 2" using k by (simp add: length_live)
  then have lv: "map seq (live m) = [18446744073709551615, 0]"
    using s0 s1 by (intro nth_equalityI) (auto simp: less_Suc_eq numeral_2_eq_2)
  have "rwlog_snapshot (Some m) (Some ?buf) 2 =
       (int (min (count m) 2), Some (take (min (count m) 2) (live m) @ drop (min (count m) 2) ?buf),
        Some m)"
    by (rule rwlog_snapshot_eq) simp
  then have sn: "rwlog_snapshot (Some m) (Some ?buf) 2 = (2, Some (live m), Some m)"
    unfolding k using l2 by simp
  have "map seq (take 2 (the (fst (snd (rwlog_snapshot
       (monitor_ptr (the (run (started (created 2) 1) ?evs))) (Some ?buf) 2)))))
     = [18446744073709551615, 0]"
    unfolding r option.sel m sn using l2 lv by simp
  then show ?thesis by simp
qed

subsection \<open>Sequence numbers\<close>

lemma seq_stored_reachable:
  assumes "rwlog_create None cap env = (0, Some m0)" and "mapping_fits cap env"
    and "i < length xs"
  shows "seq (stored_entries (Some m0) xs ! i) = 1 + of_nat i"
proof -
  note c = rwlog_create_ring_ok [OF assms(1,2)]
  show ?thesis
    using stored_entries_stamps [OF c(1), of xs] c(6) assms(3) by (simp add: seq_stamps)
qed

text \<open>
  C5 (amended). \<^verbatim>\<open>next_seq\<close> is 1 at creation and each append of a run of the threads
  assigns it and adds one, modulo \<open>2^64\<close>. As long as the run has made fewer than \<open>2^64\<close>
  appends (and the mapped array holds \<^verbatim>\<open>capacity\<close> entries), the \<open>i\<close>-th stored copy of
  the run (from 0) has sequence number \<open>i + 1\<close>, an entry appended before another has the
  smaller sequence number, and in every snapshot of the state reached the sequence numbers
  increase strictly with the index.
\<close>

theorem sequence_monotone:
  assumes "rwlog_create None cap env = (0, Some m0)" and "mapping_fits cap env"
    and "run (started m0 n) evs = Some s" and "length (appends_of evs) < 2 ^ 64"
  shows "next_seq m0 = 1 \<and>
     (\<exists>m. monitor_ptr s = Some m \<and> next_seq m = 1 + of_nat (length (appends_of evs)) \<and>
        (\<forall>buf max_entries r b' g'.
           min (count m) max_entries \<le> length buf \<and>
           rwlog_snapshot (Some m) (Some buf) max_entries = (r, Some b', g') \<longrightarrow>
           sorted_wrt (<) (map seq (take (nat r) b')))) \<and>
     length (stored_in_run (started m0 n) evs) = length (appends_of evs) \<and>
     (\<forall>i. i < length (appends_of evs) \<longrightarrow>
        unat (seq (stored_in_run (started m0 n) evs ! i)) = i + 1) \<and>
     (\<forall>i j. i < j \<and> j < length (appends_of evs) \<longrightarrow>
        seq (stored_in_run (started m0 n) evs ! i) < seq (stored_in_run (started m0 n) evs ! j))"
proof -
  note c = rwlog_create_idx [OF assms(1)]
  from run_reaches [OF assms(1,3)] obtain m where m: "monitor_ptr s = Some m"
    and ns: "next_seq m = 1 + of_nat (length (appends_of evs))" by blast
  note l = run_reaches_fits [OF assms(1,2,3) m]
  let ?st = "stored_in_run (started m0 n) evs"
  have len: "length ?st = length (appends_of evs)"
    unfolding l(3) by (simp add: length_stamps)
  have un: "unat (seq (?st ! i)) = i + 1" if "i < length (appends_of evs)" for i
  proof -
    have "i + 1 < 2 ^ 64" using that assms(4) by simp
    from unat_succ_of_nat [OF this] show ?thesis
      unfolding l(3) using that by (simp add: seq_stamps)
  qed
  have lt: "seq (?st ! i) < seq (?st ! j)" if "i < j \<and> j < length (appends_of evs)" for i j
    using that un [of i] un [of j] by (simp add: word_less_nat_alt)
  have sn: "sorted_wrt (<) (map seq (take (nat r) b'))"
    if h: "min (count m) max_entries \<le> length buf \<and>
        rwlog_snapshot (Some m) (Some buf) max_entries = (r, Some b', g')"
    for buf max_entries r b' g'
  proof -
    let ?k = "min (count m) max_entries"
    have b: "?k \<le> length buf" using h by simp
    have "rwlog_snapshot (Some m) (Some buf) max_entries =
        (int ?k, Some (take ?k (live m) @ drop ?k buf), Some m)"
      by (rule rwlog_snapshot_eq [OF b])
    then have r: "nat r = ?k" and b': "b' = take ?k (live m) @ drop ?k buf"
      using h by simp_all
    have tk: "take (nat r) b' = take ?k (live m)"
      unfolding r b' by (simp add: length_live)
    show ?thesis
      unfolding tk by (rule sorted_live_run [OF assms(1,2,3) m assms(4)])
  qed
  have ex: "\<exists>m. monitor_ptr s = Some m \<and> next_seq m = 1 + of_nat (length (appends_of evs)) \<and>
        (\<forall>buf max_entries r b' g'.
           min (count m) max_entries \<le> length buf \<and>
           rwlog_snapshot (Some m) (Some buf) max_entries = (r, Some b', g') \<longrightarrow>
           sorted_wrt (<) (map seq (take (nat r) b')))"
    using m ns sn by blast
  have una: "\<forall>i. i < length (appends_of evs) \<longrightarrow> unat (seq (?st ! i)) = i + 1"
    using un by blast
  have lta: "\<forall>i j. i < j \<and> j < length (appends_of evs) \<longrightarrow> seq (?st ! i) < seq (?st ! j)"
    using lt by blast
  show ?thesis
    by (intro conjI) (rule c(6), rule ex, rule len, rule una, rule lta)
qed

text \<open>Thread 0 appends two entries inside its write bracket.\<close>

theorem sequence_monotone_witness:
  "rwlog_create None 3 env_all_ok = (0, Some (created 3)) \<and>
   mapping_fits 3 env_all_ok \<and>
   run (started (created 3) 3)
       [(0, Call_begin_write), (0, Call_append (entry_of ''A'') noon),
        (0, Call_append (entry_of ''B'') noon)] =
     Some \<lparr>monitor_ptr = Some (appends_locked ((created 3)\<lparr>writer_active := 1\<rparr>)
               [(entry_of ''A'', 0, noon), (entry_of ''B'', 0, noon)]),
           pcs = [Writing, Idle, Idle]\<rparr> \<and>
   length (appends_of [(0, Call_begin_write), (0, Call_append (entry_of ''A'') noon),
        (0, Call_append (entry_of ''B'') noon)]) < 2 ^ 64 \<and>
   next_seq (created 3) = 1 \<and>
   seq (stored_in_run (started (created 3) 3)
          [(0, Call_begin_write), (0, Call_append (entry_of ''A'') noon),
           (0, Call_append (entry_of ''B'') noon)] ! 0)
     < seq (stored_in_run (started (created 3) 3)
          [(0, Call_begin_write), (0, Call_append (entry_of ''A'') noon),
           (0, Call_append (entry_of ''B'') noon)] ! 1)"
proof -
  let ?evs = "[(0, Call_begin_write), (0, Call_append (entry_of ''A'') noon),
        (0, Call_append (entry_of ''B'') noon)]"
  let ?st = "stored_in_run (started (created 3) 3) ?evs"
  note c = create_three and f = fits_three and r = run_two_appends
  have n: "length (appends_of ?evs) < 2 ^ 64" by simp
  note t = sequence_monotone [OF c f r n]
  have "next_seq (created 3) = 1" using t by (rule conjunct1)
  moreover have "\<forall>i j. i < j \<and> j < length (appends_of ?evs) \<longrightarrow> seq (?st ! i) < seq (?st ! j)"
    using t by (elim conjE)
  then have "seq (?st ! 0) < seq (?st ! 1)"
    by (elim allE [of _ 0] allE [of _ 1] impE) simp_all
  ultimately show ?thesis using c f r n by (intro conjI)
qed

text \<open>
  C5 as stated fails where the counter wraps: of \<open>2^64\<close> appends the last but one is
  assigned \<open>2^64 - 1\<close> and the last one 0.
\<close>

theorem sequence_wraps_counterexample:
  "seq (stored_entries (Some (created 2))
          (replicate 18446744073709551616 (entry_of ''x'', 1, noon)) ! 18446744073709551614)
     = 18446744073709551615 \<and>
   seq (stored_entries (Some (created 2))
          (replicate 18446744073709551616 (entry_of ''x'', 1, noon)) ! 18446744073709551615)
     = 0 \<and>
   \<not> seq (stored_entries (Some (created 2))
          (replicate 18446744073709551616 (entry_of ''x'', 1, noon)) ! 18446744073709551614)
     < seq (stored_entries (Some (created 2))
          (replicate 18446744073709551616 (entry_of ''x'', 1, noon)) ! 18446744073709551615)"
proof -
  let ?xs = "replicate 18446744073709551616 (entry_of ''x'', 1 :: pthread_t, noon)"
  have c: "rwlog_create None 2 env_all_ok = (0, Some (created 2))"
    by (simp add: rwlog_create_created)
  have f: "mapping_fits 2 env_all_ok"
    by (simp add: mapping_fits_demo)
  have a: "seq (stored_entries (Some (created 2)) ?xs ! 18446744073709551614)
      = 1 + of_nat 18446744073709551614"
    by (rule seq_stored_reachable [OF c f]) simp
  have b: "seq (stored_entries (Some (created 2)) ?xs ! 18446744073709551615)
      = 1 + of_nat 18446744073709551615"
    by (rule seq_stored_reachable [OF c f]) simp
  have "(1 + of_nat 18446744073709551614 :: 64 word) = 18446744073709551615"
    and "(1 + of_nat 18446744073709551615 :: 64 word) = 0"
    by simp_all
  then show ?thesis unfolding a b by simp
qed

end
